theory Spec2Isabelle
  imports Main "HOL-Library.Word" "HOL-Library.Char_ord" "HOL-Library.List_Lexorder"
begin

unbundle bit_operations_syntax

section \<open>Message identifiers (internal/guest/prot/protocol.go)\<close>

text \<open>
  A message identifier is a \<^verbatim>\<open>uint32\<close> divided into type (4 bits), category (8 bits),
  message id (12 bits) and version (8 bits).
\<close>

type_synonym MessageIdentifier = "32 word"

definition messageTypeMask :: "32 word" where
  "messageTypeMask = 0xF0000000"

definition MtRequest :: "32 word" where
  "MtRequest = 0x10000000"

definition MtResponse :: "32 word" where
  "MtResponse = 0x20000000"

text \<open>
  \<^verbatim>\<open>MessageIdentifier(MtResponse | (uint32(identifier) & ^uint32(messageTypeMask)))\<close>
\<close>

definition GetResponseIdentifier :: "MessageIdentifier \<Rightarrow> MessageIdentifier" where
  "GetResponseIdentifier identifier = MtResponse OR (identifier AND NOT messageTypeMask)"

section \<open>Modify-settings messages (internal/guest/prot/protocol.go)\<close>

text \<open>
  \<^verbatim>\<open>UnmarshalContainerModifySettings\<close> calls the JSON decoder three times. The decoder
  (\<^verbatim>\<open>commonutils.UnmarshalJSONWithHresult\<close> over \<^verbatim>\<open>encoding/json\<close>), the records it fills and
  the \<^verbatim>\<open>guestresource\<close> and \<^verbatim>\<open>guestrequest\<close> constants are declared outside this file, so
  they are parameters here: what each of the three calls returns for given bytes, and the
  values of the constants.
\<close>

type_synonym bytes = string

text \<open>
  \<open>Hresult\<close> is an error of the decoder; \<open>Wrap\<close> is \<^verbatim>\<open>errors.Wrap(err, message)\<close>;
  \<open>InvalidResourceType\<close> is \<^verbatim>\<open>errors.Errorf("invalid ResourceType '%s'", ...)\<close>.
\<close>

datatype unmarshal_error =
    Hresult string
  | Wrap unmarshal_error string
  | InvalidResourceType string

text \<open>The concrete record types of \<^verbatim>\<open>guestresource\<close> that \<^verbatim>\<open>Settings\<close> is decoded into.\<close>

datatype settings_type =
    SCSIDevice
  | LCOWMappedVirtualDisk
  | LCOWMappedDirectory
  | LCOWMappedVPMemDevice
  | LCOWCombinedLayers
  | LCOWNetworkAdapter
  | LCOWMappedVPCIDevice
  | LCOWContainerConstraints
  | LCOWConfidentialOptions
  | LCOWSecurityPolicyFragment

text \<open>
  The parameters. \<open>unmarshalMessage\<close> decodes the message with \<^verbatim>\<open>Request\<close> pointing at a
  \<^verbatim>\<open>json.RawMessage\<close>: it gives the \<^verbatim>\<open>MessageBase\<close> and the raw bytes of \<^verbatim>\<open>Request\<close>.
  \<open>unmarshalRequest\<close> decodes a \<^verbatim>\<open>guestrequest.ModificationRequest\<close> with \<^verbatim>\<open>Settings\<close>
  pointing at a \<^verbatim>\<open>json.RawMessage\<close>: it gives \<^verbatim>\<open>ResourceType\<close>, \<^verbatim>\<open>RequestType\<close> and the raw
  bytes of \<^verbatim>\<open>Settings\<close>. \<open>unmarshalSettings ty\<close> decodes a record of type \<open>ty\<close>.
\<close>

record ('b, 'v) json =
  unmarshalMessage :: "bytes \<Rightarrow> unmarshal_error + 'b \<times> bytes"
  unmarshalRequest :: "bytes \<Rightarrow> unmarshal_error + string \<times> string \<times> bytes"
  unmarshalSettings :: "settings_type \<Rightarrow> bytes \<Rightarrow> unmarshal_error + 'v"
  RequestTypeAdd :: string
  ResourceTypeSCSIDevice :: string
  ResourceTypeMappedVirtualDisk :: string
  ResourceTypeMappedDirectory :: string
  ResourceTypeVPMemDevice :: string
  ResourceTypeCombinedLayers :: string
  ResourceTypeNetwork :: string
  ResourceTypeVPCIDevice :: string
  ResourceTypeContainerConstraints :: string
  ResourceTypeSecurityPolicy :: string
  ResourceTypePolicyFragment :: string

text \<open>
  The \<^verbatim>\<open>Request\<close> field of the returned message: still the raw bytes, or the
  \<^verbatim>\<open>ModificationRequest\<close> with its \<^verbatim>\<open>ResourceType\<close>, its \<^verbatim>\<open>RequestType\<close> and the decoded
  \<^verbatim>\<open>Settings\<close> record with its type.
\<close>

datatype 'v request =
    RawRequest bytes
  | ModificationRequest string string settings_type 'v

record ('b, 'v) containerModifySettings =
  MessageBase :: 'b
  Request :: "'v request"

text \<open>
  The \<^verbatim>\<open>switch msr.ResourceType\<close>, cases in the order of the source: the record type to
  decode into and the message of the wrapped error; \<open>None\<close> is the \<^verbatim>\<open>default\<close> case.
\<close>

definition settings_switch :: "('b, 'v) json \<Rightarrow> string \<Rightarrow> (settings_type \<times> string) option" where
  "settings_switch J rt =
     (if rt = ResourceTypeSCSIDevice J then
        Some (SCSIDevice, ''failed to unmarshal settings as SCSIDevice'')
      else if rt = ResourceTypeMappedVirtualDisk J then
        Some (LCOWMappedVirtualDisk, ''failed to unmarshal settings as MappedVirtualDiskV2'')
      else if rt = ResourceTypeMappedDirectory J then
        Some (LCOWMappedDirectory, ''failed to unmarshal settings as MappedDirectoryV2'')
      else if rt = ResourceTypeVPMemDevice J then
        Some (LCOWMappedVPMemDevice,
              ''failed to unmarshal hosted settings as MappedVPMemDeviceV2'')
      else if rt = ResourceTypeCombinedLayers J then
        Some (LCOWCombinedLayers, ''failed to unmarshal settings as CombinedLayersV2'')
      else if rt = ResourceTypeNetwork J then
        Some (LCOWNetworkAdapter, ''failed to unmarshal settings as NetworkAdapterV2'')
      else if rt = ResourceTypeVPCIDevice J then
        Some (LCOWMappedVPCIDevice, ''failed to unmarshal settings as MappedVPCIDeviceV2'')
      else if rt = ResourceTypeContainerConstraints J then
        Some (LCOWContainerConstraints,
              ''failed to unmarshal settings as ContainerConstraintsV2'')
      else if rt = ResourceTypeSecurityPolicy J then
        Some (LCOWConfidentialOptions,
              ''failed to unmarshal settings as LCOWConfidentialOptions'')
      else if rt = ResourceTypePolicyFragment J then
        Some (LCOWSecurityPolicyFragment,
              ''failed to unmarshal settings as LCOWSecurityPolicyFragment'')
      else None)"

text \<open>
  The function returns \<^verbatim>\<open>(*containerModifySettings, error)\<close>: \<open>None\<close> is nil in either
  place. After the first decode every return hands back the message, with \<^verbatim>\<open>Request\<close> still
  raw unless the whole decode succeeded.
\<close>

definition UnmarshalContainerModifySettings ::
  "('b, 'v) json \<Rightarrow> bytes
     \<Rightarrow> ('b, 'v) containerModifySettings option \<times> unmarshal_error option" where
  "UnmarshalContainerModifySettings J b =
     (case unmarshalMessage J b of
        Inl err \<Rightarrow> (None, Some (Wrap err ''failed to unmarshal ContainerModifySettings''))
      | Inr (base, requestRawSettings) \<Rightarrow>
          (let request = \<lparr>MessageBase = base, Request = RawRequest requestRawSettings\<rparr>
           in case unmarshalRequest J requestRawSettings of
                Inl err \<Rightarrow>
                  (Some request,
                   Some (Wrap err
                     ''failed to unmarshal request.Settings as ModifySettingRequest''))
              | Inr (resourceType, requestType0, msrRawSettings) \<Rightarrow>
                  (let requestType =
                         (if requestType0 = [] then RequestTypeAdd J else requestType0)
                   in case settings_switch J resourceType of
                        None \<Rightarrow> (Some request, Some (InvalidResourceType resourceType))
                      | Some (ty, msg) \<Rightarrow>
                          (case unmarshalSettings J ty msrRawSettings of
                             Inl err \<Rightarrow> (Some request, Some (Wrap err msg))
                           | Inr v \<Rightarrow>
                               (Some (request\<lparr>Request :=
                                        ModificationRequest resourceType requestType ty v\<rparr>),
                                None)))))"

text \<open>The constant that names a record type, for the statement of the dispatch.\<close>

fun resourceTypeOf :: "('b, 'v) json \<Rightarrow> settings_type \<Rightarrow> string" where
  "resourceTypeOf J SCSIDevice = ResourceTypeSCSIDevice J"
| "resourceTypeOf J LCOWMappedVirtualDisk = ResourceTypeMappedVirtualDisk J"
| "resourceTypeOf J LCOWMappedDirectory = ResourceTypeMappedDirectory J"
| "resourceTypeOf J LCOWMappedVPMemDevice = ResourceTypeVPMemDevice J"
| "resourceTypeOf J LCOWCombinedLayers = ResourceTypeCombinedLayers J"
| "resourceTypeOf J LCOWNetworkAdapter = ResourceTypeNetwork J"
| "resourceTypeOf J LCOWMappedVPCIDevice = ResourceTypeVPCIDevice J"
| "resourceTypeOf J LCOWContainerConstraints = ResourceTypeContainerConstraints J"
| "resourceTypeOf J LCOWConfidentialOptions = ResourceTypeSecurityPolicy J"
| "resourceTypeOf J LCOWSecurityPolicyFragment = ResourceTypePolicyFragment J"

text \<open>
  An example decoder for the witness: the constants have the values of the \<^verbatim>\<open>guestresource\<close>
  package, a message is its container id and its request separated by \<^verbatim>\<open>|\<close>, and so on.
\<close>

definition ex_json :: "(string, settings_type \<times> bytes) json" where
  "ex_json =
     \<lparr>unmarshalMessage = (\<lambda>b. if b = [] then Inl (Hresult ''unexpected end of JSON input'')
                               else Inr (takeWhile (\<lambda>x. x \<noteq> CHR ''|'') b,
                                         drop 1 (dropWhile (\<lambda>x. x \<noteq> CHR ''|'') b))),
      unmarshalRequest = (\<lambda>b. if b = [] then Inl (Hresult ''unexpected end of JSON input'')
                               else Inr (takeWhile (\<lambda>x. x \<noteq> CHR ''|'') b, [],
                                         drop 1 (dropWhile (\<lambda>x. x \<noteq> CHR ''|'') b))),
      unmarshalSettings = (\<lambda>ty b. Inr (ty, b)),
      RequestTypeAdd = ''Add'',
      ResourceTypeSCSIDevice = ''SCSIDevice'',
      ResourceTypeMappedVirtualDisk = ''MappedVirtualDisk'',
      ResourceTypeMappedDirectory = ''MappedDirectory'',
      ResourceTypeVPMemDevice = ''VPMemDevice'',
      ResourceTypeCombinedLayers = ''CombinedLayers'',
      ResourceTypeNetwork = ''Network'',
      ResourceTypeVPCIDevice = ''VPCIDevice'',
      ResourceTypeContainerConstraints = ''ContainerConstraints'',
      ResourceTypeSecurityPolicy = ''SecurityPolicy'',
      ResourceTypePolicyFragment = ''SecurityPolicyFragment''\<rparr>"

section \<open>The SCSI mount manager\<close>

subsection \<open>Data\<close>

text \<open>Go's \<^verbatim>\<open>uint\<close> on the 64-bit targets: increments and decrements wrap around.\<close>

type_synonym uint = "64 word"

text \<open>
  Pointers. A pointer is the position of what it points at in a list of the state (below)
  that holds everything of that type allocated so far; nil is \<open>None\<close> where a pointer may
  be nil.
\<close>

type_synonym addr = nat

text \<open>
  A non-nil \<^verbatim>\<open>[]string\<close>: \<open>len\<close> elements of a backing array, from position \<open>off\<close> on. Two
  slices may share a backing array.
\<close>

record slice =
  array :: addr
  off :: nat
  len :: nat

text \<open>\<^verbatim>\<open>mountConfig\<close>. The \<^verbatim>\<open>options\<close> slice is \<open>None\<close> when it is nil.\<close>

record mountConfig =
  partition' :: "64 word"
  readOnly :: bool
  encrypted :: bool
  blockDev :: bool
  options :: "slice option"
  ensureFilesystem :: bool
  filesystem :: string

text \<open>
  Errors as values. \<open>External\<close> is an error handed in from outside the manager (by the
  mounter or by the context); the other three are the manager's own \<^verbatim>\<open>fmt.Errorf\<close> values:
  \<^verbatim>\<open>cannot mount over an existing mountpoint: %s\<close>,
  \<^verbatim>\<open>mount scsi controller %d lun %d at %s: %w\<close> and
  \<^verbatim>\<open>unmount scsi controller %d lun %d at path %s: %w\<close>.
\<close>

datatype error =
    External string
  | CannotMountOver string
  | MountFailed uint uint string error
  | UnmountFailed uint uint string error

text \<open>Run-time panics of the Go code.\<close>

datatype panic = NilDereference | IndexOutOfRange | CloseOfClosedChannel

text \<open>The channel \<^verbatim>\<open>waitCh\<close> carries no value; it is only ever closed.\<close>

datatype chan = Open | Closed

text \<open>\<^verbatim>\<open>mount\<close>. \<open>config\<close> is the caller's \<^verbatim>\<open>*mountConfig\<close>, kept as a pointer.\<close>

record mount =
  path :: string
  index :: nat
  controller :: uint
  lun :: uint
  config :: addr
  waitErr :: "error option"
  waitCh :: chan
  refCount :: uint

text \<open>
  The calls the \<^verbatim>\<open>mounter\<close> collaborator has received, oldest first, with the arguments it
  was given (the configuration is a pointer).
\<close>

datatype mounter_call =
    MounterMount uint uint string addr
  | MounterUnmount uint uint string addr

text \<open>
  \<^verbatim>\<open>mountManager\<close>, together with the memory it reaches. The mutex is left out: what the
  source does while holding it is one atomic step below. \<open>mounter\<close> is the collaborator, seen
  as the log of calls made to it; what a call returns is an argument of the step that makes
  it. \<open>mounts\<close> is the table of \<^verbatim>\<open>*mount\<close>. \<open>mountFmt\<close> is the format template, seen as the
  function \<^verbatim>\<open>fmt.Sprintf(mountFmt, index)\<close> of the index. The memory: \<open>heap\<close> holds the
  \<^verbatim>\<open>mount\<close> structs (a struct stays there after its slot is cleared, as it does for the
  goroutines that still hold the pointer), \<open>configs\<close> the \<^verbatim>\<open>mountConfig\<close> structs of the
  callers, \<open>strings\<close> the backing arrays of their \<^verbatim>\<open>options\<close> slices. Pointers and slices are
  taken to be valid, as they are in Go.
\<close>

record mountManager =
  mounter :: "mounter_call list"
  heap :: "mount list"
  mounts :: "addr option list"
  mountFmt :: "nat \<Rightarrow> string"
  configs :: "mountConfig list"
  strings :: "string list list"

definition newMountManager :: "mounter_call list \<Rightarrow> (nat \<Rightarrow> string) \<Rightarrow> mountManager" where
  "newMountManager mounter0 mountFmt0 =
     \<lparr>mounter = mounter0, heap = [], mounts = [], mountFmt = mountFmt0,
      configs = [], strings = []\<rparr>"

text \<open>
  The templates in use end in one \<^verbatim>\<open>%d\<close> (\<^verbatim>\<open>/run/mounts/scsi/m%d\<close>): \<open>fmt_d prefix\<close> is
  \<^verbatim>\<open>fmt.Sprintf(prefix + "%d", index)\<close> for a prefix without verbs.
\<close>

fun decimal :: "nat \<Rightarrow> string" where
  "decimal n =
     (if n < 10 then [''0123456789'' ! n]
      else decimal (n div 10) @ [''0123456789'' ! (n mod 10)])"

definition fmt_d :: "string \<Rightarrow> nat \<Rightarrow> string" where
  "fmt_d prefix i = prefix @ decimal i"

subsection \<open>Configurations in memory\<close>

text \<open>The elements a slice shows.\<close>

definition elems :: "mountManager \<Rightarrow> slice \<Rightarrow> string list" where
  "elems mm s = take (len s) (drop (off s) (strings mm ! array s))"

text \<open>
  \<^verbatim>\<open>sort.Strings\<close> on a slice: the elements it shows are sorted in place, in the backing
  array (strings are ordered bytewise). Nothing happens for a nil slice.
\<close>

definition sortStrings :: "mountManager \<Rightarrow> slice option \<Rightarrow> mountManager" where
  "sortStrings mm x =
     (case x of
        None \<Rightarrow> mm
      | Some s \<Rightarrow>
          (let A = strings mm ! array s
           in mm\<lparr>strings := (strings mm)
                  [array s := take (off s) A @ sort (take (len s) (drop (off s) A))
                                @ drop (off s + len s) A]\<rparr>))"

text \<open>
  \<^verbatim>\<open>reflect.DeepEqual\<close> on two \<^verbatim>\<open>*mountConfig\<close>: equal pointers, or structs with deeply equal
  fields. Two slices are deeply equal when both are nil, or both are not and have the same
  length and equal elements; a nil slice and an empty one are not.
\<close>

definition DeepEqual :: "mountManager \<Rightarrow> addr \<Rightarrow> addr \<Rightarrow> bool" where
  "DeepEqual mm c d \<longleftrightarrow>
     c = d \<or>
     (let x = configs mm ! c; y = configs mm ! d
      in partition' x = partition' y \<and> readOnly x = readOnly y \<and> encrypted x = encrypted y
         \<and> blockDev x = blockDev y
         \<and> (case options x of
               None \<Rightarrow> options y = None
             | Some s \<Rightarrow>
                 (case options y of
                    None \<Rightarrow> False
                  | Some t \<Rightarrow> len s = len t \<and> elems mm s = elems mm t))
         \<and> ensureFilesystem x = ensureFilesystem y \<and> filesystem x = filesystem y)"

subsection \<open>trackMount and untrackMount\<close>

text \<open>
  \<^verbatim>\<open>controller == mount.controller && lun == mount.lun && reflect.DeepEqual(c, mount.config)\<close>
\<close>

definition sameKey :: "mountManager \<Rightarrow> uint \<Rightarrow> uint \<Rightarrow> addr \<Rightarrow> mount \<Rightarrow> bool" where
  "sameKey mm ctl ln c m \<longleftrightarrow> ctl = controller m \<and> ln = lun m \<and> DeepEqual mm c (config m)"

text \<open>
  The loop of \<^verbatim>\<open>trackMount\<close> over the slots from position \<open>i\<close> on. \<open>freeIndex\<close> is \<open>None\<close>
  for the source's \<open>-1\<close>. The loop leaves in one of three ways.
\<close>

datatype scan = Existed addr | Conflict | NotFound "nat option"

fun trackMount_loop ::
  "mountManager \<Rightarrow> uint \<Rightarrow> uint \<Rightarrow> string \<Rightarrow> addr \<Rightarrow> nat \<Rightarrow> nat option
     \<Rightarrow> addr option list \<Rightarrow> scan" where
  "trackMount_loop mm ctl ln p c i freeIndex [] = NotFound freeIndex"
| "trackMount_loop mm ctl ln p c i freeIndex (None # ms) =
     trackMount_loop mm ctl ln p c (Suc i)
       (if freeIndex = None then Some i else freeIndex) ms"
| "trackMount_loop mm ctl ln p c i freeIndex (Some a # ms) =
     (if sameKey mm ctl ln c (heap mm ! a) then Existed a
      else if p \<noteq> [] \<and> p = path (heap mm ! a) then Conflict
      else trackMount_loop mm ctl ln p c (Suc i) freeIndex ms)"

text \<open>
  \<^verbatim>\<open>trackMount\<close> returns \<^verbatim>\<open>(*mount, bool, error)\<close>: here the new state and either the
  error or the pointer with the \<^verbatim>\<open>existed\<close> flag. A new struct is allocated at the end of
  the heap. \<open>freeIndex\<close>, when set, is a position the loop has visited, so the slot
  assignment is in range.
\<close>

definition trackMount ::
  "mountManager \<Rightarrow> uint \<Rightarrow> uint \<Rightarrow> string \<Rightarrow> addr
     \<Rightarrow> mountManager \<times> (error + addr \<times> bool)" where
  "trackMount mm ctl ln p c =
     (case trackMount_loop mm ctl ln p c 0 None (mounts mm) of
        Existed a \<Rightarrow>
          (mm\<lparr>heap := (heap mm)[a := (heap mm ! a)\<lparr>refCount := refCount (heap mm ! a) + 1\<rparr>]\<rparr>,
           Inr (a, True))
      | Conflict \<Rightarrow> (mm, Inl (CannotMountOver p))
      | NotFound freeIndex \<Rightarrow>
          (let a = length (heap mm);
               i = (case freeIndex of None \<Rightarrow> length (mounts mm) | Some f \<Rightarrow> f);
               m = \<lparr>path = (if p = [] then mountFmt mm i else p), index = i,
                    controller = ctl, lun = ln, config = c, waitErr = None,
                    waitCh = Open, refCount = 1\<rparr>
           in (mm\<lparr>heap := heap mm @ [m],
                  mounts := (case freeIndex of
                               None \<Rightarrow> mounts mm @ [Some a]
                             | Some f \<Rightarrow> (mounts mm)[f := Some a])\<rparr>,
               Inr (a, False))))"

text \<open>\<^verbatim>\<open>mm.mounts[mount.index] = nil\<close>, which panics when the index is out of range.\<close>

definition untrackMount :: "mountManager \<Rightarrow> addr \<Rightarrow> panic + mountManager" where
  "untrackMount mm a =
     (let i = index (heap mm ! a)
      in if i < length (mounts mm) then Inr (mm\<lparr>mounts := (mounts mm)[i := None]\<rparr>)
         else Inl IndexOutOfRange)"

subsection \<open>mount\<close>

text \<open>
  The \<^verbatim>\<open>select\<close> of a caller that found an existing entry. \<open>ctx\<close> is \<open>Some e\<close> when the
  context is done with \<^verbatim>\<open>ctx.Err() = e\<close>. The result lists what the call may return: one
  value for each case that is ready, none while the caller is blocked.
\<close>

definition mount_select :: "error option \<Rightarrow> mount \<Rightarrow> (error + string) list" where
  "mount_select ctx m =
     (case ctx of None \<Rightarrow> [] | Some e \<Rightarrow> [Inl e]) @
     (case waitCh m of
        Open \<Rightarrow> []
      | Closed \<Rightarrow> [case waitErr m of Some e \<Rightarrow> Inl e | None \<Rightarrow> Inr (path m)])"

text \<open>
  Where a goroutine stands in \<^verbatim>\<open>mount\<close>, with the values it holds. \<open>mres\<close> is what
  \<^verbatim>\<open>mounter.mount\<close> returns if this call makes it. \<open>Start\<close>: on entry (the configuration
  pointer may be nil; reading \<^verbatim>\<open>c.options\<close> then panics). \<open>Track\<close>: after the sort, before
  \<^verbatim>\<open>trackMount\<close>. \<open>Select\<close>: the entry existed, in the \<^verbatim>\<open>select\<close>. \<open>Call\<close>: the
  entry is new, in \<^verbatim>\<open>mounter.mount\<close>. From there on \<open>ret\<close> is what the \<^verbatim>\<open>return\<close> statement
  has fixed and \<open>err\<close> the named result that the deferred function reads. \<open>Deferred\<close>: at
  the start of the deferred function. \<open>SetWaitErr\<close>: before \<^verbatim>\<open>mount.waitErr = err\<close>. \<open>Close\<close>:
  before \<^verbatim>\<open>close(mount.waitCh)\<close>. \<open>Returned\<close>: back in the caller.
\<close>

datatype mount_pc =
    Start "error option" uint uint string "addr option" "error option"
  | Track "error option" uint uint string addr "error option"
  | Select "error option" addr
  | Call uint uint addr addr "error option"
  | Deferred addr "error option" "error + string"
  | SetWaitErr addr "error option" "error + string"
  | Close addr "error + string"
  | Returned "error + string"

text \<open>
  One atomic step of \<^verbatim>\<open>mount\<close>, in the order of the source: the possible outcomes, each a
  panic or the new state with the place the goroutine has moved to. Only the \<^verbatim>\<open>select\<close> can
  have none (the goroutine is blocked) or two (both cases are ready).
\<close>

fun mount_step :: "mountManager \<Rightarrow> mount_pc \<Rightarrow> (panic + mountManager \<times> mount_pc) list" where
  "mount_step mm (Start ctx ctl ln p c0 mres) =
     (case c0 of
        None \<Rightarrow> [Inl NilDereference]
      | Some c \<Rightarrow>
          [Inr (sortStrings mm (options (configs mm ! c)), Track ctx ctl ln p c mres)])"
| "mount_step mm (Track ctx ctl ln p c mres) =
     (case trackMount mm ctl ln p c of
        (mm1, Inl err) \<Rightarrow> [Inr (mm1, Returned (Inl err))]
      | (mm1, Inr (a, True)) \<Rightarrow> [Inr (mm1, Select ctx a)]
      | (mm1, Inr (a, False)) \<Rightarrow> [Inr (mm1, Call ctl ln a c mres)])"
| "mount_step mm (Select ctx a) =
     map (\<lambda>r. Inr (mm, Returned r)) (mount_select ctx (heap mm ! a))"
| "mount_step mm (Call ctl ln a c mres) =
     (let pa = path (heap mm ! a);
          mm1 = mm\<lparr>mounter := mounter mm @ [MounterMount ctl ln pa c]\<rparr>
      in case mres of
           Some e \<Rightarrow>
             [Inr (mm1, Deferred a (Some (MountFailed ctl ln pa e))
                          (Inl (MountFailed ctl ln pa e)))]
         | None \<Rightarrow> [Inr (mm1, Deferred a None (Inr pa))])"
| "mount_step mm (Deferred a err ret) =
     (case err of
        None \<Rightarrow> [Inr (mm, SetWaitErr a err ret)]
      | Some e \<Rightarrow>
          (case untrackMount mm a of
             Inl pn \<Rightarrow> [Inl pn]
           | Inr mm1 \<Rightarrow> [Inr (mm1, SetWaitErr a err ret)]))"
| "mount_step mm (SetWaitErr a err ret) =
     [Inr (mm\<lparr>heap := (heap mm)[a := (heap mm ! a)\<lparr>waitErr := err\<rparr>]\<rparr>, Close a ret)]"
| "mount_step mm (Close a ret) =
     (case waitCh (heap mm ! a) of
        Closed \<Rightarrow> [Inl CloseOfClosedChannel]
      | Open \<Rightarrow>
          [Inr (mm\<lparr>heap := (heap mm)[a := (heap mm ! a)\<lparr>waitCh := Closed\<rparr>]\<rparr>, Returned ret)])"
| "mount_step mm (Returned ret) = []"

text \<open>The number of steps a goroutine may still take.\<close>

fun steps_left :: "mount_pc \<Rightarrow> nat" where
  "steps_left (Start ctx ctl ln p c mres) = 7"
| "steps_left (Track ctx ctl ln p c mres) = 6"
| "steps_left (Call ctl ln a c mres) = 5"
| "steps_left (Deferred a err ret) = 4"
| "steps_left (SetWaitErr a err ret) = 3"
| "steps_left (Close a ret) = 2"
| "steps_left (Select ctx a) = 1"
| "steps_left (Returned ret) = 0"

text \<open>
  \<^verbatim>\<open>mount\<close> run from a place on without another goroutine in between: the state it ends in
  and the values it may return, or the panic. At the \<^verbatim>\<open>select\<close> these are the values it may
  return at once (see \<open>mount_select\<close>); none means that it stays blocked.
\<close>

function mount_from :: "mountManager \<Rightarrow> mount_pc \<Rightarrow> panic + mountManager \<times> (error + string) list" where
  "mount_from mm pc =
     (case pc of
        Returned ret \<Rightarrow> Inr (mm, [ret])
      | Select ctx a \<Rightarrow> Inr (mm, mount_select ctx (heap mm ! a))
      | _ \<Rightarrow>
          (case mount_step mm pc of
             [Inl pn] \<Rightarrow> Inl pn
           | [Inr (mm1, pc1)] \<Rightarrow> mount_from mm1 pc1
           | _ \<Rightarrow> Inr (mm, [])))"
  by pat_completeness auto
termination
  by (relation "measure (\<lambda>(mm, pc). steps_left pc)")
    (auto simp: Let_def split: option.splits prod.splits sum.splits bool.splits chan.splits)

definition mount ::
  "mountManager \<Rightarrow> error option \<Rightarrow> uint \<Rightarrow> uint \<Rightarrow> string \<Rightarrow> addr option \<Rightarrow> error option
     \<Rightarrow> panic + mountManager \<times> (error + string) list" where
  "mount mm ctx ctl ln p c mres = mount_from mm (Start ctx ctl ln p c mres)"

subsection \<open>unmount\<close>

text \<open>
  The search loop of \<^verbatim>\<open>unmount\<close>. The loop variable is the variable declared before the
  loop: each round assigns the slot to it and then tests it, so after a loop that never
  breaks it holds the last slot (or nil for an empty table).
\<close>

fun unmount_loop :: "mount list \<Rightarrow> string \<Rightarrow> addr option \<Rightarrow> addr option list \<Rightarrow> addr option" where
  "unmount_loop h p cur [] = cur"
| "unmount_loop h p cur (None # ms) = unmount_loop h p None ms"
| "unmount_loop h p cur (Some a # ms) =
     (if path (h ! a) = p then Some a else unmount_loop h p (Some a) ms)"

text \<open>
  \<^verbatim>\<open>unmount\<close> holds the lock from entry to return, so it is one atomic step. \<open>ures\<close> is what
  \<^verbatim>\<open>mounter.unmount\<close> returns if it is called. The result is the new state and the returned
  error (\<open>None\<close> for nil), or the panic.
\<close>

definition unmount ::
  "mountManager \<Rightarrow> string \<Rightarrow> error option \<Rightarrow> panic + mountManager \<times> error option" where
  "unmount mm p ures =
     (case unmount_loop (heap mm) p None (mounts mm) of
        None \<Rightarrow> Inl NilDereference
      | Some a \<Rightarrow>
          (let m = (heap mm ! a)\<lparr>refCount := refCount (heap mm ! a) - 1\<rparr>;
               mm1 = mm\<lparr>heap := (heap mm)[a := m]\<rparr>
           in if refCount m > 0 then Inr (mm1, None)
              else
                (let mm2 = mm1\<lparr>mounter := mounter mm1 @
                             [MounterUnmount (controller m) (lun m) (path m) (config m)]\<rparr>
                 in case ures of
                      Some e \<Rightarrow>
                        Inr (mm2, Some (UnmountFailed (controller m) (lun m) (path m) e))
                    | None \<Rightarrow>
                        (case untrackMount mm2 a of
                           Inl pn \<Rightarrow> Inl pn
                         | Inr mm3 \<Rightarrow> Inr (mm3, None)))))"

subsection \<open>Sequences of calls\<close>

datatype op =
    Mount "error option" uint uint string "addr option" "error option"
  | Unmount string "error option"

fun apply_op :: "mountManager \<Rightarrow> op \<Rightarrow> panic + mountManager" where
  "apply_op mm (Mount ctx ctl ln p c mres) = map_sum id fst (mount mm ctx ctl ln p c mres)"
| "apply_op mm (Unmount p ures) = map_sum id fst (unmount mm p ures)"

fun run :: "mountManager \<Rightarrow> op list \<Rightarrow> panic + mountManager" where
  "run mm [] = Inr mm"
| "run mm (x # xs) = (case apply_op mm x of Inl pn \<Rightarrow> Inl pn | Inr mm' \<Rightarrow> run mm' xs)"

subsection \<open>Concurrent calls\<close>

text \<open>
  A goroutine is in a call of \<^verbatim>\<open>mount\<close>, or about to call \<^verbatim>\<open>unmount\<close>, or back from it with
  the error it returned.
\<close>

datatype goroutine =
    Mounting mount_pc
  | Unmounting string "error option"
  | Unmounted "error option"

fun go_step :: "mountManager \<Rightarrow> goroutine \<Rightarrow> (panic + mountManager \<times> goroutine) list" where
  "go_step mm (Mounting pc) = map (map_sum id (\<lambda>(mm1, pc1). (mm1, Mounting pc1))) (mount_step mm pc)"
| "go_step mm (Unmounting p ures) = [map_sum id (\<lambda>(mm1, r). (mm1, Unmounted r)) (unmount mm p ures)]"
| "go_step mm (Unmounted r) = []"

text \<open>
  An execution follows a schedule: each entry names the goroutine that takes the next step
  and which of its possible outcomes happens. The result is the state and the goroutines
  at the end, or \<open>None\<close> when the schedule names a step that is not possible or a step
  panics (the process is gone).
\<close>

fun exec ::
  "mountManager \<times> goroutine list \<Rightarrow> (nat \<times> nat) list \<Rightarrow> (mountManager \<times> goroutine list) option" where
  "exec (mm, gs) [] = Some (mm, gs)"
| "exec (mm, gs) ((i, n) # sch) =
     (if i < length gs \<and> n < length (go_step mm (gs ! i))
      then case go_step mm (gs ! i) ! n of
             Inl pn \<Rightarrow> None
           | Inr (mm1, g1) \<Rightarrow> exec (mm1, gs[i := g1]) sch
      else None)"

text \<open>The entry, if any, that a goroutine has created and not yet published.\<close>

fun creating :: "goroutine \<Rightarrow> addr option" where
  "creating (Mounting (Call ctl ln a c mres)) = Some a"
| "creating (Mounting (Deferred a err ret)) = Some a"
| "creating (Mounting (SetWaitErr a err ret)) = Some a"
| "creating (Mounting (Close a ret)) = Some a"
| "creating g = None"

subsection \<open>Well-formed states\<close>

text \<open>
  What the shape of the code gives: a pointer in the table points at an allocated struct
  whose \<open>index\<close> is the slot holding it, and no \<open>index\<close> lies beyond the table (the table
  never shrinks).
\<close>

definition wf_state :: "mountManager \<Rightarrow> bool" where
  "wf_state mm \<longleftrightarrow>
     (\<forall>i<length (mounts mm). \<forall>a. mounts mm ! i = Some a \<longrightarrow>
        a < length (heap mm) \<and> index (heap mm ! a) = i)
     \<and> (\<forall>m\<in>set (heap mm). index m < length (mounts mm))"

subsection \<open>Invariants of executions\<close>

text \<open>
  In every state of an execution that starts with no call in flight: a struct that a
  goroutine has created and not yet published is allocated, its channel is open, it has
  no error recorded while the goroutine is in \<^verbatim>\<open>mounter.mount\<close>, and no other goroutine is
  its creator.
\<close>

definition creators_ok :: "mountManager \<Rightarrow> goroutine list \<Rightarrow> bool" where
  "creators_ok mm gs \<longleftrightarrow>
     wf_state mm
     \<and> (\<forall>k<length gs. \<forall>a. creating (gs ! k) = Some a \<longrightarrow>
          a < length (heap mm) \<and> waitCh (heap mm ! a) = Open
          \<and> (\<forall>ctl ln c mres. gs ! k = Mounting (Call ctl ln a c mres) \<longrightarrow>
                waitErr (heap mm ! a) = None)
          \<and> (\<forall>i<length gs. i \<noteq> k \<longrightarrow> creating (gs ! i) \<noteq> Some a))"

text \<open>
  From the moment goroutine \<open>k\<close> is in \<^verbatim>\<open>mounter.mount\<close> for the struct at \<open>a\<close> that it
  created, with \<open>mres\<close> what the mounter returns and \<open>pa\<close> the path of the struct: where the
  goroutine stands, and what the struct and the table show there. The struct is out of
  the table from \<open>SetWaitErr\<close> on when the mounter failed.
\<close>

definition creator_inv ::
  "nat \<Rightarrow> addr \<Rightarrow> uint \<Rightarrow> uint \<Rightarrow> addr \<Rightarrow> error option \<Rightarrow> string
     \<Rightarrow> mountManager \<Rightarrow> goroutine list \<Rightarrow> bool" where
  "creator_inv k a ctl ln c mres pa mm gs \<longleftrightarrow>
     (let m = heap mm ! a;
          err = map_option (MountFailed ctl ln pa) mres;
          ret = (case mres of Some e \<Rightarrow> Inl (MountFailed ctl ln pa e) | None \<Rightarrow> Inr pa);
          gone = (mres = None \<or> Some a \<notin> set (mounts mm))
      in wf_state mm \<and> k < length gs \<and> a < length (heap mm) \<and> path m = pa
         \<and> (\<forall>i<length gs. i \<noteq> k \<longrightarrow> creating (gs ! i) \<noteq> Some a)
         \<and> (gs ! k = Mounting (Call ctl ln a c mres) \<and> waitCh m = Open \<and> waitErr m = None
            \<or> gs ! k = Mounting (Deferred a err ret) \<and> waitCh m = Open \<and> waitErr m = None
            \<or> gs ! k = Mounting (SetWaitErr a err ret) \<and> waitCh m = Open
                \<and> waitErr m = None \<and> gone
            \<or> gs ! k = Mounting (Close a ret) \<and> waitCh m = Open \<and> waitErr m = err \<and> gone
            \<or> gs ! k = Mounting (Returned ret) \<and> waitCh m = Closed \<and> waitErr m = err
                \<and> gone))"

subsection \<open>Counting the calls that reach an entry\<close>

text \<open>
  The struct a call reaches. A \<^verbatim>\<open>mount\<close> reaches the struct that \<^verbatim>\<open>trackMount\<close> returns: the
  entry its loop stops at, or the new struct, which is allocated at the end of the heap. An
  \<^verbatim>\<open>unmount\<close> reaches the struct its search loop ends with.
\<close>

fun reaches :: "mountManager \<Rightarrow> op \<Rightarrow> addr option" where
  "reaches mm (Mount ctx ctl ln p c0 mres) =
     (case c0 of
        None \<Rightarrow> None
      | Some c \<Rightarrow>
          (let mm1 = sortStrings mm (options (configs mm ! c))
           in case trackMount_loop mm1 ctl ln p c 0 None (mounts mm1) of
                Existed a \<Rightarrow> Some a
              | Conflict \<Rightarrow> None
              | NotFound f \<Rightarrow> Some (length (heap mm1))))"
| "reaches mm (Unmount p ures) = unmount_loop (heap mm) p None (mounts mm)"

text \<open>
  In the run of a sequence of calls from \<open>mm\<close>: the number of \<^verbatim>\<open>mount\<close> calls that reach the
  struct at \<open>a\<close> (that create it or find it), and the number of \<^verbatim>\<open>unmount\<close> calls that do.
\<close>

fun mounts_of :: "mountManager \<Rightarrow> addr \<Rightarrow> op list \<Rightarrow> nat" where
  "mounts_of mm a [] = 0"
| "mounts_of mm a (x # xs) =
     (case x of
        Mount ctx ctl ln p c mres \<Rightarrow> (if reaches mm x = Some a then 1 else 0)
      | Unmount p ures \<Rightarrow> 0)
     + (case apply_op mm x of Inl pn \<Rightarrow> 0 | Inr mm' \<Rightarrow> mounts_of mm' a xs)"

fun unmounts_of :: "mountManager \<Rightarrow> addr \<Rightarrow> op list \<Rightarrow> nat" where
  "unmounts_of mm a [] = 0"
| "unmounts_of mm a (x # xs) =
     (case x of
        Mount ctx ctl ln p c mres \<Rightarrow> 0
      | Unmount p ures \<Rightarrow> (if reaches mm x = Some a then 1 else 0))
     + (case apply_op mm x of Inl pn \<Rightarrow> 0 | Inr mm' \<Rightarrow> unmounts_of mm' a xs)"

text \<open>The reference count of the struct at \<open>a\<close>; zero while it is not allocated.\<close>

definition refCount_at :: "mountManager \<Rightarrow> addr \<Rightarrow> uint" where
  "refCount_at mm a = (if a < length (heap mm) then refCount (heap mm ! a) else 0)"

subsection \<open>Example states\<close>

text \<open>
  The memory of the examples: three configurations that differ in nothing but the backing
  array of their two options.
\<close>

definition ex_cfg :: "addr \<Rightarrow> mountConfig" where
  "ex_cfg r =
     \<lparr>partition' = 0, readOnly = True, encrypted = False, blockDev = False,
      options = Some \<lparr>array = r, off = 0, len = 2\<rparr>, ensureFilesystem = False,
      filesystem = ''ext4''\<rparr>"

definition ex_mount :: "uint \<Rightarrow> string \<Rightarrow> nat \<Rightarrow> addr \<Rightarrow> mount" where
  "ex_mount ln pa i c =
     \<lparr>path = pa, index = i, controller = 0, lun = ln, config = c,
      waitErr = None, waitCh = Closed, refCount = 1\<rparr>"

definition ex_new :: mountManager where
  "ex_new =
     \<lparr>mounter = [], heap = [], mounts = [], mountFmt = fmt_d ''/run/mounts/scsi/m'',
      configs = [ex_cfg 0, ex_cfg 1, ex_cfg 2],
      strings = [[''ro'', ''noatime''], [''ro'', ''noatime''], [''ro'', ''noatime'']]\<rparr>"

text \<open>
  After \<^verbatim>\<open>mount(0, 1, "/a", c0)\<close> and \<^verbatim>\<open>mount(0, 2, "/b", c1)\<close> from \<open>ex_new\<close>, \<open>c0\<close> and \<open>c1\<close>
  being the pointers to the first two configurations.
\<close>

definition ex_two :: mountManager where
  "ex_two =
     \<lparr>mounter = [MounterMount 0 1 ''/a'' 0, MounterMount 0 2 ''/b'' 1],
      heap = [ex_mount 1 ''/a'' 0 0, ex_mount 2 ''/b'' 1 1],
      mounts = [Some 0, Some 1],
      mountFmt = fmt_d ''/run/mounts/scsi/m'',
      configs = [ex_cfg 0, ex_cfg 1, ex_cfg 2],
      strings = [[''noatime'', ''ro''], [''noatime'', ''ro''], [''ro'', ''noatime'']]\<rparr>"

text \<open>A table with two free slots.\<close>

definition ex_holes :: mountManager where
  "ex_holes =
     \<lparr>mounter = [],
      heap = [ex_mount 1 ''/a'' 0 0, ex_mount 2 ''/b'' 2 1],
      mounts = [Some 0, None, Some 1, None],
      mountFmt = fmt_d ''/run/mounts/scsi/m'',
      configs = [ex_cfg 0, ex_cfg 1, ex_cfg 2],
      strings = [[''noatime'', ''ro''], [''noatime'', ''ro''], [''ro'', ''noatime'']]\<rparr>"

text \<open>
  After \<^verbatim>\<open>mount(0, 0, "/run/mounts/scsi/m1", c0)\<close> and \<^verbatim>\<open>mount(0, 1, "", c1)\<close> from \<open>ex_new\<close>.
\<close>

definition ex_collide :: mountManager where
  "ex_collide =
     \<lparr>mounter = [MounterMount 0 0 ''/run/mounts/scsi/m1'' 0,
                 MounterMount 0 1 ''/run/mounts/scsi/m1'' 1],
      heap = [ex_mount 0 ''/run/mounts/scsi/m1'' 0 0, ex_mount 1 ''/run/mounts/scsi/m1'' 1 1],
      mounts = [Some 0, Some 1],
      mountFmt = fmt_d ''/run/mounts/scsi/m'',
      configs = [ex_cfg 0, ex_cfg 1, ex_cfg 2],
      strings = [[''noatime'', ''ro''], [''noatime'', ''ro''], [''ro'', ''noatime'']]\<rparr>"

text \<open>
  From \<open>ex_new\<close>, a call \<^verbatim>\<open>mount(0, 2, "/b", c0)\<close> that has created its entry and is in
  \<^verbatim>\<open>mounter.mount\<close>.
\<close>

definition ex_inflight :: mountManager where
  "ex_inflight =
     \<lparr>mounter = [],
      heap = [(ex_mount 2 ''/b'' 0 0)\<lparr>waitCh := Open\<rparr>],
      mounts = [Some 0],
      mountFmt = fmt_d ''/run/mounts/scsi/m'',
      configs = [ex_cfg 0, ex_cfg 1, ex_cfg 2],
      strings = [[''noatime'', ''ro''], [''ro'', ''noatime''], [''ro'', ''noatime'']]\<rparr>"

text \<open>
  Two configurations whose options share one backing array: the first shows its first two
  elements, the second all three.
\<close>

definition ex_shared :: mountManager where
  "ex_shared =
     \<lparr>mounter = [], heap = [], mounts = [], mountFmt = fmt_d ''/run/mounts/scsi/m'',
      configs = [(ex_cfg 0), (ex_cfg 0)\<lparr>options := Some \<lparr>array = 0, off = 0, len = 3\<rparr>\<rparr>],
      strings = [[''b'', ''c'', ''a'']]\<rparr>"

section \<open>Properties of the message identifiers\<close>

lemma bit_messageTypeMask: "bit messageTypeMask n \<longleftrightarrow> 28 \<le> n \<and> n < 32"
proof -
  have e: "(0xF0000000 :: 32 word) = NOT (mask 28)"
    by (simp add: mask_eq_exp_minus_1)
  have "bit (NOT (mask 28 :: 32 word)) n \<longleftrightarrow> 28 \<le> n \<and> n < 32"
    unfolding bit_not_iff bit_mask_iff by auto
  then show ?thesis
    unfolding messageTypeMask_def by (simp only: e)
qed

lemma bit_MtResponse: "bit MtResponse n \<longleftrightarrow> n = 29"
proof -
  have e: "(0x20000000 :: 32 word) = push_bit 29 1"
    by simp
  have "bit (push_bit 29 (1 :: 32 word)) n \<longleftrightarrow> n = 29"
    unfolding bit_push_bit_iff bit_1_iff by auto
  then show ?thesis
    unfolding MtResponse_def by (simp only: e)
qed

lemma bit_two_word32: "bit (2 :: 32 word) n \<longleftrightarrow> n = 1"
proof -
  have e: "(2 :: 32 word) = push_bit 1 1"
    by simp
  have "bit (push_bit 1 (1 :: 32 word)) n \<longleftrightarrow> n = 1"
    unfolding bit_push_bit_iff bit_1_iff by auto
  then show ?thesis
    by (simp only: e)
qed

lemma GetResponseIdentifier_bit:
  "bit (GetResponseIdentifier r) n \<longleftrightarrow> (if n < 28 then bit r n else n = 29)"
  using bit_imp_le_length [of r n]
  by (auto simp: GetResponseIdentifier_def bit_or_iff bit_and_iff bit_not_iff
      bit_messageTypeMask bit_MtResponse)

text \<open>
  C9: for every 32-bit request identifier \<open>R\<close>, \<open>GetResponseIdentifier R\<close> has the four type
  bits (the top nibble) equal to the Response type value \<open>0x2\<close>, and its lower 28 bits are
  those of \<open>R\<close>.
\<close>

theorem GetResponseIdentifier_response_type:
  "drop_bit 28 (GetResponseIdentifier R) = 2
   \<and> GetResponseIdentifier R AND messageTypeMask = MtResponse
   \<and> take_bit 28 (GetResponseIdentifier R) = take_bit 28 R"
proof (intro conjI)
  show "drop_bit 28 (GetResponseIdentifier R) = 2"
  proof (rule bit_word_eqI)
    fix n
    assume "n < LENGTH(32)"
    then show "bit (drop_bit 28 (GetResponseIdentifier R)) n \<longleftrightarrow> bit (2 :: 32 word) n"
      unfolding bit_two_word32 bit_drop_bit_eq GetResponseIdentifier_bit by auto
  qed
next
  show "GetResponseIdentifier R AND messageTypeMask = MtResponse"
    by (rule bit_word_eqI)
      (auto simp: bit_and_iff GetResponseIdentifier_bit bit_messageTypeMask bit_MtResponse)
next
  show "take_bit 28 (GetResponseIdentifier R) = take_bit 28 R"
    by (rule bit_word_eqI) (auto simp: bit_take_bit_iff GetResponseIdentifier_bit)
qed

section \<open>Properties of the mount manager\<close>

lemma trackMount_loop_Existed_first:
  assumes "j < length ms" "ms ! j = Some a" "sameKey mm ctl ln c (heap mm ! a)"
    and "\<forall>k<j. \<forall>b. ms ! k = Some b \<longrightarrow> \<not> sameKey mm ctl ln c (heap mm ! b) \<and> \<not> (p \<noteq> [] \<and> p = path (heap mm ! b))"
  shows "trackMount_loop mm ctl ln p c i f ms = Existed a"
  using assms
proof (induction ms arbitrary: j i f)
  case Nil
  then show ?case by simp
next
  case (Cons x ms)
  show ?case
  proof (cases j)
    case 0
    with Cons.prems show ?thesis by simp
  next
    case (Suc j')
    have step: "trackMount_loop mm ctl ln p c i' f' ms = Existed a" for i' f'
    proof (rule Cons.IH [of j'])
      show "j' < length ms" using Cons.prems(1) Suc by simp
      show "ms ! j' = Some a" using Cons.prems(2) Suc by simp
      show "sameKey mm ctl ln c (heap mm ! a)" by (rule Cons.prems(3))
      show "\<forall>k<j'. \<forall>b. ms ! k = Some b \<longrightarrow> \<not> sameKey mm ctl ln c (heap mm ! b) \<and> \<not> (p \<noteq> [] \<and> p = path (heap mm ! b))"
      proof (intro allI impI)
        fix k b assume "k < j'" "ms ! k = Some b"
        then have "Suc k < j" "(x # ms) ! Suc k = Some b" using Suc by simp_all
        then show "\<not> sameKey mm ctl ln c (heap mm ! b) \<and> \<not> (p \<noteq> [] \<and> p = path (heap mm ! b))"
          using Cons.prems(4) by blast
      qed
    qed
    show ?thesis
    proof (cases x)
      case None
      then show ?thesis using step by simp
    next
      case (Some b)
      have "0 < j" using Suc by simp
      moreover have "(x # ms) ! 0 = Some b" using Some by simp
      ultimately have "\<not> sameKey mm ctl ln c (heap mm ! b) \<and> \<not> (p \<noteq> [] \<and> p = path (heap mm ! b))"
        using Cons.prems(4) by blast
      then show ?thesis using Some step by simp
    qed
  qed
qed

lemma trackMount_loop_Conflict_first:
  assumes "j < length ms" "ms ! j = Some a" "\<not> sameKey mm ctl ln c (heap mm ! a)" "p \<noteq> []" "p = path (heap mm ! a)"
    and "\<forall>k<j. \<forall>b. ms ! k = Some b \<longrightarrow> \<not> sameKey mm ctl ln c (heap mm ! b)"
  shows "trackMount_loop mm ctl ln p c i f ms = Conflict"
  using assms
proof (induction ms arbitrary: j i f)
  case Nil
  then show ?case by simp
next
  case (Cons x ms)
  show ?case
  proof (cases j)
    case 0
    with Cons.prems show ?thesis by simp
  next
    case (Suc j')
    have step: "trackMount_loop mm ctl ln p c i' f' ms = Conflict" for i' f'
    proof (rule Cons.IH [of j'])
      show "j' < length ms" using Cons.prems(1) Suc by simp
      show "ms ! j' = Some a" using Cons.prems(2) Suc by simp
      show "\<forall>k<j'. \<forall>b. ms ! k = Some b \<longrightarrow> \<not> sameKey mm ctl ln c (heap mm ! b)"
      proof (intro allI impI)
        fix k b assume "k < j'" "ms ! k = Some b"
        then have "Suc k < j" "(x # ms) ! Suc k = Some b" using Suc by simp_all
        then show "\<not> sameKey mm ctl ln c (heap mm ! b)"
          using Cons.prems(6) by blast
      qed
    qed (use Cons.prems in auto)
    show ?thesis
    proof (cases x)
      case None
      then show ?thesis using step by simp
    next
      case (Some b)
      have "0 < j" using Suc by simp
      moreover have "(x # ms) ! 0 = Some b" using Some by simp
      ultimately have "\<not> sameKey mm ctl ln c (heap mm ! b)"
        using Cons.prems(6) by blast
      then show ?thesis using Some step by simp
    qed
  qed
qed

lemma trackMount_loop_Existed_D:
  "trackMount_loop mm ctl ln p c i f ms = Existed a \<Longrightarrow> Some a \<in> set ms \<and> sameKey mm ctl ln c (heap mm ! a)"
proof (induction ms arbitrary: i f)
  case Nil
  then show ?case by simp
next
  case (Cons x ms)
  then show ?case
    by (cases x) (auto split: if_splits)
qed

lemma trackMount_loop_NotFound_D:
  "trackMount_loop mm ctl ln p c i f ms = NotFound f' \<Longrightarrow> Some b \<in> set ms \<Longrightarrow>
     \<not> sameKey mm ctl ln c (heap mm ! b) \<and> \<not> (p \<noteq> [] \<and> p = path (heap mm ! b))"
proof (induction ms arbitrary: i f)
  case Nil
  then show ?case by simp
next
  case (Cons x ms)
  then show ?case
    by (cases x) (auto split: if_splits)
qed

text \<open>The free index the loop leaves with.\<close>

lemma trackMount_loop_freeIndex_Some:
  "trackMount_loop mm ctl ln p c i (Some g) ms = NotFound f' \<Longrightarrow> f' = Some g"
proof (induction ms arbitrary: i)
  case Nil
  then show ?case by simp
next
  case (Cons x ms)
  then show ?case
    by (cases x) (auto split: if_splits)
qed

lemma trackMount_loop_freeIndex_None:
  "trackMount_loop mm ctl ln p c i None ms = NotFound f' \<Longrightarrow>
     (case f' of
        None \<Rightarrow> None \<notin> set ms
      | Some g \<Rightarrow> i \<le> g \<and> g - i < length ms \<and> ms ! (g - i) = None
                  \<and> (\<forall>k<g - i. ms ! k \<noteq> None))"
proof (induction ms arbitrary: i)
  case Nil
  then show ?case by simp
next
  case (Cons x ms)
  show ?case
  proof (cases x)
    case None
    with Cons.prems have "trackMount_loop mm ctl ln p c (Suc i) (Some i) ms = NotFound f'"
      by simp
    then have "f' = Some i"
      by (rule trackMount_loop_freeIndex_Some)
    then show ?thesis using None by simp
  next
    case (Some b)
    with Cons.prems have rec: "trackMount_loop mm ctl ln p c (Suc i) None ms = NotFound f'"
      by (simp split: if_splits)
    note ih = Cons.IH [OF rec]
    show ?thesis
    proof (cases f')
      case None
      then show ?thesis using ih Some by simp
    next
      case (Some g)
      with ih have g: "Suc i \<le> g" "g - Suc i < length ms" "ms ! (g - Suc i) = None"
        "\<forall>k<g - Suc i. ms ! k \<noteq> None"
        by simp_all
      have eq: "g - i = Suc (g - Suc i)" using g(1) by simp
      have "\<forall>k<g - i. (x # ms) ! k \<noteq> None"
      proof (intro allI impI)
        fix k assume k: "k < g - i"
        show "(x # ms) ! k \<noteq> None"
        proof (cases k)
          case 0
          then show ?thesis using \<open>x = Some b\<close> by simp
        next
          case (Suc k')
          then have "k' < g - Suc i" using k eq by simp
          then show ?thesis using g(4) Suc by simp
        qed
      qed
      then show ?thesis using g Some eq by simp
    qed
  qed
qed

lemma unmount_loop_first:
  assumes "j < length ms" "ms ! j = Some a" "path (h ! a) = p"
    and "\<forall>k<j. \<forall>b. ms ! k = Some b \<longrightarrow> path (h ! b) \<noteq> p"
  shows "unmount_loop h p cur ms = Some a"
  using assms
proof (induction ms arbitrary: j cur)
  case Nil
  then show ?case by simp
next
  case (Cons x ms)
  show ?case
  proof (cases j)
    case 0
    with Cons.prems show ?thesis by simp
  next
    case (Suc j')
    have step: "unmount_loop h p cur' ms = Some a" for cur'
    proof (rule Cons.IH [of j'])
      show "j' < length ms" using Cons.prems(1) Suc by simp
      show "ms ! j' = Some a" using Cons.prems(2) Suc by simp
      show "path (h ! a) = p" by (rule Cons.prems(3))
      show "\<forall>k<j'. \<forall>b. ms ! k = Some b \<longrightarrow> path (h ! b) \<noteq> p"
      proof (intro allI impI)
        fix k b assume "k < j'" "ms ! k = Some b"
        then have "Suc k < j" "(x # ms) ! Suc k = Some b" using Suc by simp_all
        then show "path (h ! b) \<noteq> p"
          using Cons.prems(4) by blast
      qed
    qed
    show ?thesis
    proof (cases x)
      case None
      then show ?thesis using step by simp
    next
      case (Some b)
      have "0 < j" using Suc by simp
      moreover have "(x # ms) ! 0 = Some b" using Some by simp
      ultimately have "path (h ! b) \<noteq> p"
        using Cons.prems(4) by blast
      then show ?thesis using Some step by simp
    qed
  qed
qed

lemma unmount_loop_no_owner:
  "(\<And>b. Some b \<in> set ms \<Longrightarrow> path (h ! b) \<noteq> p) \<Longrightarrow>
     unmount_loop h p cur ms = (if ms = [] then cur else last ms)"
proof (induction ms arbitrary: cur)
  case Nil
  then show ?case by simp
next
  case (Cons x ms)
  then show ?case
    by (cases x) auto
qed

lemma unmount_loop_owner:
  "Some b \<in> set ms \<Longrightarrow> path (h ! b) = p \<Longrightarrow>
     \<exists>a. unmount_loop h p cur ms = Some a \<and> Some a \<in> set ms \<and> path (h ! a) = p"
proof (induction ms arbitrary: cur)
  case Nil
  then show ?case by simp
next
  case (Cons x ms)
  then show ?case
    by (cases x) auto
qed

lemma wfI:
  assumes "\<And>i a. i < length (mounts mm) \<Longrightarrow> mounts mm ! i = Some a \<Longrightarrow>
             a < length (heap mm) \<and> index (heap mm ! a) = i"
    and "\<And>a. a < length (heap mm) \<Longrightarrow> index (heap mm ! a) < length (mounts mm)"
  shows "wf_state mm"
  unfolding wf_state_def
proof (intro conjI allI impI ballI)
  fix i a assume "i < length (mounts mm)" "mounts mm ! i = Some a"
  then show "a < length (heap mm)" "index (heap mm ! a) = i"
    using assms(1) [of i a] by auto
next
  fix m assume "m \<in> set (heap mm)"
  then obtain a where "a < length (heap mm)" "heap mm ! a = m"
    by (auto simp: in_set_conv_nth)
  then show "index m < length (mounts mm)"
    using assms(2) [of a] by simp
qed

lemma wf_slot:
  "wf_state mm \<Longrightarrow> i < length (mounts mm) \<Longrightarrow> mounts mm ! i = Some a \<Longrightarrow>
     a < length (heap mm) \<and> index (heap mm ! a) = i"
  unfolding wf_state_def by auto

lemma wf_index:
  "wf_state mm \<Longrightarrow> a < length (heap mm) \<Longrightarrow> index (heap mm ! a) < length (mounts mm)"
  unfolding wf_state_def by auto

lemma wf_live:
  assumes "wf_state mm" "Some a \<in> set (mounts mm)"
  shows "a < length (heap mm)" and "index (heap mm ! a) < length (mounts mm)"
    and "mounts mm ! index (heap mm ! a) = Some a"
proof -
  from assms(2) obtain i where i: "i < length (mounts mm)" "mounts mm ! i = Some a"
    by (auto simp: in_set_conv_nth)
  from wf_slot [OF assms(1) i] show "a < length (heap mm)"
    and "index (heap mm ! a) < length (mounts mm)"
    and "mounts mm ! index (heap mm ! a) = Some a"
    using i by auto
qed

lemma wf_newMountManager: "wf_state (newMountManager mounter0 mountFmt0)"
  by (simp add: wf_state_def newMountManager_def)

lemma wf_mounter_update: "wf_state (mm\<lparr>mounter := x\<rparr>) = wf_state mm"
  by (simp add: wf_state_def)

lemma wf_heap_update:
  assumes "wf_state mm" "index m' = index (heap mm ! a)"
  shows "wf_state (mm\<lparr>heap := (heap mm)[a := m']\<rparr>)"
proof (rule wfI)
  fix i b
  assume "i < length (mounts (mm\<lparr>heap := (heap mm)[a := m']\<rparr>))"
    and "mounts (mm\<lparr>heap := (heap mm)[a := m']\<rparr>) ! i = Some b"
  then have "b < length (heap mm) \<and> index (heap mm ! b) = i"
    using wf_slot [OF assms(1), of i b] by simp
  then show "b < length (heap (mm\<lparr>heap := (heap mm)[a := m']\<rparr>))
      \<and> index (heap (mm\<lparr>heap := (heap mm)[a := m']\<rparr>) ! b) = i"
    using assms(2) by (cases "b = a") auto
next
  fix b
  assume "b < length (heap (mm\<lparr>heap := (heap mm)[a := m']\<rparr>))"
  then have b: "b < length (heap mm)" by simp
  then show "index (heap (mm\<lparr>heap := (heap mm)[a := m']\<rparr>) ! b)
      < length (mounts (mm\<lparr>heap := (heap mm)[a := m']\<rparr>))"
    using wf_index [OF assms(1) b] assms(2) by (cases "b = a") auto
qed

lemma wf_clear_slot:
  assumes "wf_state mm"
  shows "wf_state (mm\<lparr>mounts := (mounts mm)[i := None]\<rparr>)"
proof (rule wfI)
  fix k b
  assume k: "k < length (mounts (mm\<lparr>mounts := (mounts mm)[i := None]\<rparr>))"
    and s: "mounts (mm\<lparr>mounts := (mounts mm)[i := None]\<rparr>) ! k = Some b"
  then have "k \<noteq> i" by auto
  then have "mounts mm ! k = Some b" "k < length (mounts mm)" using k s by auto
  then show "b < length (heap (mm\<lparr>mounts := (mounts mm)[i := None]\<rparr>))
      \<and> index (heap (mm\<lparr>mounts := (mounts mm)[i := None]\<rparr>) ! b) = k"
    using wf_slot [OF assms, of k b] by simp
next
  fix b
  assume "b < length (heap (mm\<lparr>mounts := (mounts mm)[i := None]\<rparr>))"
  then show "index (heap (mm\<lparr>mounts := (mounts mm)[i := None]\<rparr>) ! b)
      < length (mounts (mm\<lparr>mounts := (mounts mm)[i := None]\<rparr>))"
    using wf_index [OF assms, of b] by simp
qed

lemma wf_untrackMount: "wf_state mm \<Longrightarrow> untrackMount mm a = Inr mm' \<Longrightarrow> wf_state mm'"
  by (auto simp: untrackMount_def Let_def wf_clear_slot split: if_splits)

text \<open>A new struct in a free slot, or in a new slot at the end.\<close>

lemma wf_new_entry:
  assumes "wf_state mm" "index m = i"
    and "ms' = (mounts mm)[i := Some (length (heap mm))] \<and> i < length (mounts mm) \<and> mounts mm ! i = None
         \<or> ms' = mounts mm @ [Some (length (heap mm))] \<and> i = length (mounts mm)"
  shows "wf_state (mm\<lparr>heap := heap mm @ [m], mounts := ms'\<rparr>)"
proof (rule wfI)
  let ?mm' = "mm\<lparr>heap := heap mm @ [m], mounts := ms'\<rparr>"
  fix k b
  assume k: "k < length (mounts ?mm')" and s: "mounts ?mm' ! k = Some b"
  show "b < length (heap ?mm') \<and> index (heap ?mm' ! b) = k"
  proof (cases "k = i")
    case True
    with k s assms(3) have "b = length (heap mm)"
      by (auto simp: nth_append)
    then show ?thesis using True assms(2) by simp
  next
    case False
    with k s assms(3) have "k < length (mounts mm)" "mounts mm ! k = Some b"
      by (auto simp: nth_append split: if_splits)
    from wf_slot [OF assms(1) this] show ?thesis
      by (simp add: nth_append)
  qed
next
  let ?mm' = "mm\<lparr>heap := heap mm @ [m], mounts := ms'\<rparr>"
  fix b
  assume b: "b < length (heap ?mm')"
  have len: "length (mounts mm) \<le> length ms'" "i < length ms'"
    using assms(3) by auto
  show "index (heap ?mm' ! b) < length (mounts ?mm')"
  proof (cases "b < length (heap mm)")
    case True
    then show ?thesis using wf_index [OF assms(1) True] len by (simp add: nth_append)
  next
    case False
    then have "b = length (heap mm)" using b by simp
    then show ?thesis using assms(2) len by simp
  qed
qed

lemma trackMount_Existed:
  assumes "j < length (mounts mm)" "mounts mm ! j = Some a" "sameKey mm ctl ln c (heap mm ! a)"
    and "\<forall>k<j. \<forall>b. mounts mm ! k = Some b \<longrightarrow>
           \<not> sameKey mm ctl ln c (heap mm ! b) \<and> \<not> (p \<noteq> [] \<and> p = path (heap mm ! b))"
  shows "trackMount mm ctl ln p c =
           (mm\<lparr>heap := (heap mm)[a := (heap mm ! a)\<lparr>refCount := refCount (heap mm ! a) + 1\<rparr>]\<rparr>,
            Inr (a, True))"
  using trackMount_loop_Existed_first [OF assms, of 0 None]
  by (simp add: trackMount_def)

lemma trackMount_Conflict:
  assumes "j < length (mounts mm)" "mounts mm ! j = Some a" "\<not> sameKey mm ctl ln c (heap mm ! a)"
    and "p \<noteq> []" "p = path (heap mm ! a)"
    and "\<forall>k<j. \<forall>b. mounts mm ! k = Some b \<longrightarrow> \<not> sameKey mm ctl ln c (heap mm ! b)"
  shows "trackMount mm ctl ln p c = (mm, Inl (CannotMountOver p))"
  using trackMount_loop_Conflict_first [OF assms, of 0 None]
  by (simp add: trackMount_def)

lemma trackMount_new:
  assumes "trackMount mm ctl ln p c = (mm', Inr (a, False))"
  obtains f where "trackMount_loop mm ctl ln p c 0 None (mounts mm) = NotFound f"
    and "a = length (heap mm)"
    and "mm' = mm\<lparr>heap := heap mm @
                 [\<lparr>path = (if p = [] then
                             mountFmt mm (case f of None \<Rightarrow> length (mounts mm) | Some g \<Rightarrow> g)
                           else p),
                   index = (case f of None \<Rightarrow> length (mounts mm) | Some g \<Rightarrow> g),
                   controller = ctl, lun = ln, config = c, waitErr = None,
                   waitCh = Open, refCount = 1\<rparr>],
               mounts := (case f of None \<Rightarrow> mounts mm @ [Some a]
                          | Some g \<Rightarrow> (mounts mm)[g := Some a])\<rparr>"
  using assms
  by (cases "trackMount_loop mm ctl ln p c 0 None (mounts mm)")
    (auto simp: trackMount_def Let_def)

lemma freeIndex_lowest:
  assumes "trackMount_loop mm ctl ln p c 0 None ms = NotFound f"
  shows "case f of
           None \<Rightarrow> None \<notin> set ms
         | Some g \<Rightarrow> g < length ms \<and> ms ! g = None \<and> (\<forall>k<g. ms ! k \<noteq> None)"
  using trackMount_loop_freeIndex_None [OF assms] by (cases f) auto

lemma wf_trackMount:
  assumes "wf_state mm" "trackMount mm ctl ln p c = (mm', r)"
  shows "wf_state mm'"
proof (cases "trackMount_loop mm ctl ln p c 0 None (mounts mm)")
  case (Existed a)
  with assms(2) have "mm' = mm\<lparr>heap := (heap mm)
      [a := (heap mm ! a)\<lparr>refCount := refCount (heap mm ! a) + 1\<rparr>]\<rparr>"
    by (simp add: trackMount_def)
  then show ?thesis using wf_heap_update [OF assms(1)] by simp
next
  case Conflict
  with assms show ?thesis by (simp add: trackMount_def)
next
  case (NotFound f)
  note low = freeIndex_lowest [OF NotFound]
  show ?thesis
  proof (cases f)
    case None
    with NotFound assms(2) have "mm' = mm\<lparr>heap := heap mm @
        [\<lparr>path = (if p = [] then mountFmt mm (length (mounts mm)) else p),
          index = length (mounts mm), controller = ctl, lun = ln, config = c,
          waitErr = None, waitCh = Open, refCount = 1\<rparr>],
        mounts := mounts mm @ [Some (length (heap mm))]\<rparr>"
      by (simp add: trackMount_def Let_def)
    then show ?thesis using wf_new_entry [OF assms(1), of _ "length (mounts mm)"] by simp
  next
    case (Some g)
    with NotFound assms(2) have "mm' = mm\<lparr>heap := heap mm @
        [\<lparr>path = (if p = [] then mountFmt mm g else p),
          index = g, controller = ctl, lun = ln, config = c,
          waitErr = None, waitCh = Open, refCount = 1\<rparr>],
        mounts := (mounts mm)[g := Some (length (heap mm))]\<rparr>"
      by (simp add: trackMount_def Let_def)
    moreover have "g < length (mounts mm)" "mounts mm ! g = None"
      using low Some by simp_all
    ultimately show ?thesis using wf_new_entry [OF assms(1), of _ g] by simp
  qed
qed

text \<open>\<open>mount\<close> unfolded place by place.\<close>

lemma mount_from_Returned: "mount_from mm (Returned ret) = Inr (mm, [ret])"
  by simp

lemma mount_from_Select: "mount_from mm (Select ctx a) = Inr (mm, mount_select ctx (heap mm ! a))"
  by simp

lemma mount_from_Close:
  "mount_from mm (Close a ret) =
     (case waitCh (heap mm ! a) of
        Closed \<Rightarrow> Inl CloseOfClosedChannel
      | Open \<Rightarrow> Inr (mm\<lparr>heap := (heap mm)[a := (heap mm ! a)\<lparr>waitCh := Closed\<rparr>]\<rparr>, [ret]))"
  by (simp split: chan.splits)

lemma mount_from_SetWaitErr:
  "mount_from mm (SetWaitErr a err ret) =
     mount_from (mm\<lparr>heap := (heap mm)[a := (heap mm ! a)\<lparr>waitErr := err\<rparr>]\<rparr>) (Close a ret)"
  by (subst mount_from.simps) (simp del: mount_from.simps)

lemma mount_from_Deferred:
  "mount_from mm (Deferred a err ret) =
     (case err of
        None \<Rightarrow> mount_from mm (SetWaitErr a err ret)
      | Some e \<Rightarrow>
          (case untrackMount mm a of
             Inl pn \<Rightarrow> Inl pn
           | Inr mm1 \<Rightarrow> mount_from mm1 (SetWaitErr a err ret)))"
  by (subst mount_from.simps) (simp del: mount_from.simps split: option.splits sum.splits)

lemma mount_from_Call:
  "mount_from mm (Call ctl ln a c mres) =
     mount_from (mm\<lparr>mounter := mounter mm @ [MounterMount ctl ln (path (heap mm ! a)) c]\<rparr>)
       (Deferred a (map_option (MountFailed ctl ln (path (heap mm ! a))) mres)
          (case mres of
             Some e \<Rightarrow> Inl (MountFailed ctl ln (path (heap mm ! a)) e)
           | None \<Rightarrow> Inr (path (heap mm ! a))))"
  by (subst mount_from.simps) (simp del: mount_from.simps add: Let_def split: option.splits)

lemma mount_from_Track:
  "mount_from mm (Track ctx ctl ln p c mres) =
     (case trackMount mm ctl ln p c of
        (mm1, Inl err) \<Rightarrow> Inr (mm1, [Inl err])
      | (mm1, Inr (a, True)) \<Rightarrow> Inr (mm1, mount_select ctx (heap mm1 ! a))
      | (mm1, Inr (a, False)) \<Rightarrow> mount_from mm1 (Call ctl ln a c mres))"
  by (subst mount_from.simps)
    (simp del: mount_from.simps add: mount_from_Returned mount_from_Select
      split: prod.splits sum.splits bool.splits)

lemma mount_Some:
  "mount mm ctx ctl ln p (Some c) mres =
     mount_from (sortStrings mm (options (configs mm ! c))) (Track ctx ctl ln p c mres)"
  unfolding mount_def by (subst mount_from.simps) (simp del: mount_from.simps)

lemma mount_None: "mount mm ctx ctl ln p None mres = Inl NilDereference"
  unfolding mount_def by (subst mount_from.simps) (simp del: mount_from.simps)

text \<open>The sort touches nothing but the backing arrays.\<close>

lemma sortStrings_fields:
  "mounter (sortStrings mm x) = mounter mm" "heap (sortStrings mm x) = heap mm"
  "mounts (sortStrings mm x) = mounts mm" "mountFmt (sortStrings mm x) = mountFmt mm"
  "configs (sortStrings mm x) = configs mm"
  by (simp_all add: sortStrings_def Let_def split: option.splits)

text \<open>Sorting options that are sorted already changes nothing.\<close>

lemma sortStrings_None: "sortStrings mm None = mm"
  by (simp add: sortStrings_def)

lemma sortStrings_sorted:
  assumes "sorted (elems mm s)"
  shows "sortStrings mm (Some s) = mm"
proof -
  let ?A = "strings mm ! array s"
  have "drop (off s + len s) ?A = drop (len s) (drop (off s) ?A)"
    by (simp add: add.commute)
  then have "take (off s) ?A @ take (len s) (drop (off s) ?A) @ drop (off s + len s) ?A = ?A"
    by (simp only: append_take_drop_id)
  moreover have "sort (take (len s) (drop (off s) ?A)) = take (len s) (drop (off s) ?A)"
    using assms by (simp add: elems_def sorted_sort_id)
  ultimately show ?thesis
    by (simp add: sortStrings_def Let_def)
qed

lemma sortStrings_other:
  "length (strings (sortStrings mm x)) = length (strings mm)"
  "r \<noteq> array s \<Longrightarrow> strings (sortStrings mm (Some s)) ! r = strings mm ! r"
  by (simp_all add: sortStrings_def Let_def split: option.splits)

lemma wf_sortStrings: "wf_state (sortStrings mm x) = wf_state mm"
  by (simp add: wf_state_def sortStrings_fields)

lemma wf_mount_step:
  assumes "wf_state mm" "Inr (mm', pc') \<in> set (mount_step mm pc)"
  shows "wf_state mm'"
proof (cases pc)
  case (Start ctx ctl ln p c0 mres)
  with assms show ?thesis
    by (auto simp: wf_sortStrings split: option.splits)
next
  case (Track ctx ctl ln p c mres)
  obtain mm1 r where t: "trackMount mm ctl ln p c = (mm1, r)"
    by (cases "trackMount mm ctl ln p c")
  have "wf_state mm1" by (rule wf_trackMount [OF assms(1) t])
  moreover have "mm' = mm1"
    using assms(2) Track t by (auto split: sum.splits prod.splits bool.splits)
  ultimately show ?thesis by simp
next
  case (Select ctx a)
  with assms show ?thesis by auto
next
  case (Call ctl ln a c mres)
  with assms show ?thesis
    by (auto simp: Let_def wf_mounter_update split: option.splits)
next
  case (Deferred a err ret)
  with assms show ?thesis
    by (auto split: option.splits sum.splits dest: wf_untrackMount)
next
  case (SetWaitErr a err ret)
  with assms show ?thesis
    by (auto intro: wf_heap_update)
next
  case (Close a ret)
  with assms show ?thesis
    by (auto split: chan.splits intro: wf_heap_update)
next
  case (Returned ret)
  with assms show ?thesis by simp
qed

lemma wf_from_Close:
  "wf_state mm \<Longrightarrow> mount_from mm (Close a ret) = Inr (mm', rs) \<Longrightarrow> wf_state mm'"
  unfolding mount_from_Close by (auto split: chan.splits intro: wf_heap_update)

lemma wf_from_SetWaitErr:
  "wf_state mm \<Longrightarrow> mount_from mm (SetWaitErr a err ret) = Inr (mm', rs) \<Longrightarrow> wf_state mm'"
  unfolding mount_from_SetWaitErr
  by (rule wf_from_Close [of "mm\<lparr>heap := (heap mm)[a := (heap mm ! a)\<lparr>waitErr := err\<rparr>]\<rparr>"])
    (simp_all add: wf_heap_update del: mount_from.simps)

lemma wf_from_Deferred:
  assumes "wf_state mm" "mount_from mm (Deferred a err ret) = Inr (mm', rs)"
  shows "wf_state mm'"
proof (cases err)
  case None
  with assms show ?thesis
    unfolding mount_from_Deferred by (auto simp del: mount_from.simps dest: wf_from_SetWaitErr)
next
  case (Some e)
  with assms(2) obtain mm1 where u: "untrackMount mm a = Inr mm1"
    and r: "mount_from mm1 (SetWaitErr a err ret) = Inr (mm', rs)"
    unfolding mount_from_Deferred by (auto simp del: mount_from.simps split: sum.splits)
  have "wf_state mm1" by (rule wf_untrackMount [OF assms(1) u])
  then show ?thesis using r by (rule wf_from_SetWaitErr)
qed

lemma wf_from_Call:
  "wf_state mm \<Longrightarrow> mount_from mm (Call ctl ln a c mres) = Inr (mm', rs) \<Longrightarrow> wf_state mm'"
  unfolding mount_from_Call
  by (rule wf_from_Deferred
      [of "mm\<lparr>mounter := mounter mm @ [MounterMount ctl ln (path (heap mm ! a)) c]\<rparr>"])
    (simp_all add: wf_mounter_update del: mount_from.simps)

lemma wf_from_Track:
  assumes "wf_state mm" "mount_from mm (Track ctx ctl ln p c mres) = Inr (mm', rs)"
  shows "wf_state mm'"
proof -
  obtain mm1 r where t: "trackMount mm ctl ln p c = (mm1, r)"
    by (cases "trackMount mm ctl ln p c")
  have w1: "wf_state mm1" by (rule wf_trackMount [OF assms(1) t])
  from assms(2) t have "mm' = mm1 \<or> (\<exists>a. mount_from mm1 (Call ctl ln a c mres) = Inr (mm', rs))"
    unfolding mount_from_Track
    by (auto simp del: mount_from.simps split: sum.splits prod.splits bool.splits)
  then show ?thesis using w1 wf_from_Call by blast
qed

lemma wf_mount:
  assumes "wf_state mm" "mount mm ctx ctl ln p c0 mres = Inr (mm', rs)"
  shows "wf_state mm'"
proof (cases c0)
  case None
  with assms show ?thesis by (simp add: mount_None)
next
  case (Some c)
  with assms(2) have "mount_from (sortStrings mm (options (configs mm ! c)))
      (Track ctx ctl ln p c mres) = Inr (mm', rs)"
    by (simp add: mount_Some del: mount_from.simps)
  then show ?thesis
    by (rule wf_from_Track [rotated]) (simp add: wf_sortStrings assms(1))
qed

lemma wf_unmount:
  assumes "wf_state mm" "unmount mm p ures = Inr (mm', r)"
  shows "wf_state mm'"
proof -
  from assms(2) obtain a where a: "unmount_loop (heap mm) p None (mounts mm) = Some a"
    by (auto simp: unmount_def split: option.splits)
  let ?m = "(heap mm ! a)\<lparr>refCount := refCount (heap mm ! a) - 1\<rparr>"
  let ?mm1 = "mm\<lparr>heap := (heap mm)[a := ?m]\<rparr>"
  let ?mm2 = "?mm1\<lparr>mounter := mounter ?mm1 @
     [MounterUnmount (controller ?m) (lun ?m) (path ?m) (config ?m)]\<rparr>"
  have w1: "wf_state ?mm1" using wf_heap_update [OF assms(1), of ?m a] by simp
  then have w2: "wf_state ?mm2" by (simp only: wf_mounter_update)
  from assms(2) a have "mm' = ?mm1 \<or> mm' = ?mm2 \<or> untrackMount ?mm2 a = Inr mm'"
    by (auto simp: unmount_def Let_def split: if_splits option.splits sum.splits)
  then show ?thesis using w1 w2 wf_untrackMount [OF w2] by blast
qed

lemma wf_apply_op: "wf_state mm \<Longrightarrow> apply_op mm x = Inr mm' \<Longrightarrow> wf_state mm'"
proof (cases x)
  case (Mount ctx ctl ln p c mres)
  assume "wf_state mm" "apply_op mm x = Inr mm'"
  then show ?thesis using Mount
    by (cases "mount mm ctx ctl ln p c mres") (auto dest: wf_mount)
next
  case (Unmount p ures)
  assume "wf_state mm" "apply_op mm x = Inr mm'"
  then show ?thesis using Unmount
    by (cases "unmount mm p ures") (auto dest: wf_unmount)
qed

lemma wf_run: "wf_state mm \<Longrightarrow> run mm xs = Inr mm' \<Longrightarrow> wf_state mm'"
proof (induction xs arbitrary: mm)
  case Nil
  then show ?case by simp
next
  case (Cons x xs)
  then show ?case
    by (cases "apply_op mm x") (auto dest: wf_apply_op)
qed

lemma wf_go_step:
  assumes "wf_state mm" "Inr (mm', g') \<in> set (go_step mm g)"
  shows "wf_state mm'"
proof (cases g)
  case (Mounting pc)
  with assms(2) obtain pc' where "Inr (mm', pc') \<in> set (mount_step mm pc)"
    by (auto simp: map_sum_def split: sum.splits)
  then show ?thesis by (rule wf_mount_step [OF assms(1)])
next
  case (Unmounting p ures)
  with assms(2) obtain r where "unmount mm p ures = Inr (mm', r)"
    by (cases "unmount mm p ures") auto
  then show ?thesis by (rule wf_unmount [OF assms(1)])
next
  case (Unmounted r)
  with assms(2) show ?thesis by simp
qed

subsection \<open>Single calls\<close>

lemmas ex_defs = ex_cfg_def ex_mount_def ex_new_def ex_two_def ex_holes_def ex_collide_def
  ex_inflight_def ex_shared_def fmt_d_def

lemmas mm_defs = mount_def trackMount_def sortStrings_def elems_def DeepEqual_def
  mount_select_def unmount_def sameKey_def untrackMount_def Let_def

text \<open>
  C7: when \<open>trackMount\<close> creates a new entry, its index \<open>i\<close> is the lowest-numbered free
  slot of the table (every slot below \<open>i\<close> is occupied): if the table has a free slot, \<open>i\<close>
  is a free slot of the table and the entry is stored there; only if it has none is the
  table extended by one slot, and \<open>i\<close> is that new slot. When the caller's path is empty the
  entry's path is the format template applied to \<open>i\<close>; otherwise it is the caller's path.
\<close>

theorem trackMount_new_index_and_path:
  assumes "trackMount mm ctl ln p c = (mm', Inr (a, False))"
  shows "\<exists>i. index (heap mm' ! a) = i
           \<and> (\<forall>k<i. k < length (mounts mm) \<and> mounts mm ! k \<noteq> None)
           \<and> (if None \<in> set (mounts mm)
               then i < length (mounts mm) \<and> mounts mm ! i = None
                    \<and> mounts mm' = (mounts mm)[i := Some a]
               else i = length (mounts mm) \<and> mounts mm' = mounts mm @ [Some a])
           \<and> path (heap mm' ! a) = (if p = [] then mountFmt mm i else p)"
proof -
  from assms obtain f where
    loop: "trackMount_loop mm ctl ln p c 0 None (mounts mm) = NotFound f"
    and a: "a = length (heap mm)"
    and mm': "mm' = mm\<lparr>heap := heap mm @
                 [\<lparr>path = (if p = [] then
                             mountFmt mm (case f of None \<Rightarrow> length (mounts mm) | Some g \<Rightarrow> g)
                           else p),
                   index = (case f of None \<Rightarrow> length (mounts mm) | Some g \<Rightarrow> g),
                   controller = ctl, lun = ln, config = c, waitErr = None,
                   waitCh = Open, refCount = 1\<rparr>],
               mounts := (case f of None \<Rightarrow> mounts mm @ [Some a]
                          | Some g \<Rightarrow> (mounts mm)[g := Some a])\<rparr>"
    by (rule trackMount_new)
  note low = freeIndex_lowest [OF loop]
  show ?thesis
  proof (cases f)
    case None
    with low have full: "None \<notin> set (mounts mm)" by simp
    then have "\<forall>k<length (mounts mm). mounts mm ! k \<noteq> None"
      by (metis nth_mem)
    then show ?thesis using None full a mm' by simp
  next
    case (Some g)
    with low have g: "g < length (mounts mm)" "mounts mm ! g = None"
      "\<forall>k<g. mounts mm ! k \<noteq> None"
      by simp_all
    then have "None \<in> set (mounts mm)"
      by (metis nth_mem)
    then show ?thesis using Some g a mm' by simp
  qed
qed

theorem trackMount_new_index_and_path_witness:
  "\<exists>mm'. trackMount ex_holes 0 7 [] 2 = (mm', Inr (2, False))
     \<and> index (heap mm' ! 2) = 1
     \<and> mounts mm' = [Some 0, Some 2, Some 1, None]
     \<and> path (heap mm' ! 2) = ''/run/mounts/scsi/m1''"
proof -
  obtain mm' where t: "trackMount ex_holes 0 7 [] 2 = (mm', Inr (2, False))"
    by (simp add: ex_defs mm_defs)
  from trackMount_new_index_and_path [OF t] obtain i where
    i: "index (heap mm' ! 2) = i"
    "\<forall>k<i. k < length (mounts ex_holes) \<and> mounts ex_holes ! k \<noteq> None"
    "if None \<in> set (mounts ex_holes)
     then i < length (mounts ex_holes) \<and> mounts ex_holes ! i = None
          \<and> mounts mm' = (mounts ex_holes)[i := Some 2]
     else i = length (mounts ex_holes) \<and> mounts mm' = mounts ex_holes @ [Some 2]"
    "path (heap mm' ! 2) = (if [] = ([] :: string) then mountFmt ex_holes i else [])"
    by blast
  have "i = 1"
  proof -
    have "\<not> 1 < i" using i(2) by (auto simp: ex_defs)
    moreover have "i \<noteq> 0"
    proof
      assume "i = 0"
      with i(3) show False by (simp add: ex_defs)
    qed
    ultimately show ?thesis by simp
  qed
  with i t show ?thesis by (simp add: ex_defs)
qed

text \<open>
  C6, as amended: if \<open>mount\<close> is called with a non-empty path that is the path of a live
  entry whose key differs from the caller's, and no live entry in a lower-numbered slot has
  the caller's key, the call fails with the mount-path-conflict error and leaves the table,
  the entries and the mounter as they were: the only thing it has done is to sort the
  caller's options in place, in their backing array; with options that are nil or sorted
  already the state is the one before the call. (The loop visits the slots in order and
  lets the first entry that has the caller's key or the caller's path decide; keys are
  compared after the sort.)
\<close>

theorem mount_path_conflict:
  fixes c :: addr
  assumes "j < length (mounts mm)" "mounts mm ! j = Some a"
    and "p \<noteq> []" "p = path (heap mm ! a)"
  defines "mm1 \<equiv> sortStrings mm (options (configs mm ! c))"
  assumes "\<not> sameKey mm1 ctl ln c (heap mm ! a)"
    and "\<forall>k<j. \<forall>b. mounts mm ! k = Some b \<longrightarrow> \<not> sameKey mm1 ctl ln c (heap mm ! b)"
  shows "mount mm ctx ctl ln p (Some c) mres = Inr (mm1, [Inl (CannotMountOver p)])
         \<and> mounts mm1 = mounts mm \<and> heap mm1 = heap mm \<and> mounter mm1 = mounter mm
         \<and> configs mm1 = configs mm \<and> mountFmt mm1 = mountFmt mm
         \<and> length (strings mm1) = length (strings mm)
         \<and> (case options (configs mm ! c) of
               None \<Rightarrow> mm1 = mm
             | Some s \<Rightarrow>
                 (sorted (elems mm s) \<longrightarrow> mm1 = mm)
                 \<and> (\<forall>r. r \<noteq> array s \<longrightarrow> strings mm1 ! r = strings mm ! r))"
proof -
  have "trackMount mm1 ctl ln p c = (mm1, Inl (CannotMountOver p))"
    by (rule trackMount_Conflict [of j _ a])
      (use assms in \<open>simp_all add: sortStrings_fields\<close>)
  then have "mount mm ctx ctl ln p (Some c) mres = Inr (mm1, [Inl (CannotMountOver p)])"
    by (simp add: mount_Some mount_from_Track mm1_def del: mount_from.simps)
  moreover have "case options (configs mm ! c) of
        None \<Rightarrow> mm1 = mm
      | Some s \<Rightarrow>
          (sorted (elems mm s) \<longrightarrow> mm1 = mm)
          \<and> (\<forall>r. r \<noteq> array s \<longrightarrow> strings mm1 ! r = strings mm ! r)"
    unfolding mm1_def
    by (simp add: sortStrings_None sortStrings_sorted sortStrings_other split: option.splits)
  ultimately show ?thesis
    by (simp add: mm1_def sortStrings_fields sortStrings_other)
qed

theorem mount_path_conflict_witness:
  "mount ex_two None 0 3 ''/a'' (Some 2) None
     = Inr (ex_two\<lparr>strings := [[''noatime'', ''ro''], [''noatime'', ''ro''], [''noatime'', ''ro'']]\<rparr>,
            [Inl (CannotMountOver ''/a'')])"
proof -
  have "mount ex_two None 0 3 ''/a'' (Some 2) None
      = Inr (sortStrings ex_two (options (configs ex_two ! 2)), [Inl (CannotMountOver ''/a'')])
    \<and> mounts (sortStrings ex_two (options (configs ex_two ! 2))) = mounts ex_two
    \<and> heap (sortStrings ex_two (options (configs ex_two ! 2))) = heap ex_two
    \<and> mounter (sortStrings ex_two (options (configs ex_two ! 2))) = mounter ex_two
    \<and> configs (sortStrings ex_two (options (configs ex_two ! 2))) = configs ex_two
    \<and> mountFmt (sortStrings ex_two (options (configs ex_two ! 2))) = mountFmt ex_two
    \<and> length (strings (sortStrings ex_two (options (configs ex_two ! 2))))
        = length (strings ex_two)
    \<and> (case options (configs ex_two ! 2) of
          None \<Rightarrow> sortStrings ex_two (options (configs ex_two ! 2)) = ex_two
        | Some s \<Rightarrow>
            (sorted (elems ex_two s)
               \<longrightarrow> sortStrings ex_two (options (configs ex_two ! 2)) = ex_two)
            \<and> (\<forall>r. r \<noteq> array s \<longrightarrow>
                   strings (sortStrings ex_two (options (configs ex_two ! 2))) ! r
                   = strings ex_two ! r))"
  proof (rule mount_path_conflict [of 0 ex_two 0])
    show "0 < length (mounts ex_two)" "mounts ex_two ! 0 = Some 0"
      "''/a'' \<noteq> []" "''/a'' = path (heap ex_two ! 0)"
      "\<not> sameKey (sortStrings ex_two (options (configs ex_two ! 2))) 0 3 2 (heap ex_two ! 0)"
      "\<forall>k<0. \<forall>b. mounts ex_two ! k = Some b
         \<longrightarrow> \<not> sameKey (sortStrings ex_two (options (configs ex_two ! 2))) 0 3 2
               (heap ex_two ! b)"
      by (simp_all add: ex_defs sameKey_def)
  qed
  then show ?thesis
    by (simp add: ex_defs sortStrings_def)
qed

text \<open>
  The claim without the condition on the lower slots fails: with the key of lun 1 at \<^verbatim>\<open>/a\<close>
  in slot 0 and the key of lun 2 at \<^verbatim>\<open>/b\<close> in slot 1, a mount of the key of lun 1 at \<^verbatim>\<open>/b\<close>
  meets its own key first; it succeeds with the path \<^verbatim>\<open>/a\<close> and raises that entry's count.
\<close>

theorem mount_path_conflict_counterexample:
  "run ex_new [Mount None 0 1 ''/a'' (Some 0) None, Mount None 0 2 ''/b'' (Some 1) None]
     = Inr ex_two
   \<and> mounts ex_two ! 1 = Some 1 \<and> path (heap ex_two ! 1) = ''/b''
   \<and> \<not> sameKey (sortStrings ex_two (options (configs ex_two ! 2))) 0 1 2 (heap ex_two ! 1)
   \<and> mount ex_two None 0 1 ''/b'' (Some 2) None
     = Inr (ex_two\<lparr>heap := (heap ex_two)[0 := (heap ex_two ! 0)\<lparr>refCount := 2\<rparr>],
                   strings := [[''noatime'', ''ro''], [''noatime'', ''ro''],
                               [''noatime'', ''ro'']]\<rparr>,
            [Inr ''/a''])"
  by (simp add: ex_defs mm_defs)

text \<open>
  C4, as amended: when \<open>unmount\<close> drops the last reference of the entry that owns the path,
  it calls \<open>mounter.unmount\<close> once and the count becomes zero. If that call fails, the
  error is returned to the caller (wrapped) and the entry stays in the mount table, with
  count zero; the slot is cleared only when the call succeeds.
\<close>

theorem unmount_last_reference:
  assumes "wf_state mm" "j < length (mounts mm)" "mounts mm ! j = Some a"
    and "path (heap mm ! a) = p"
    and "\<forall>k<j. \<forall>b. mounts mm ! k = Some b \<longrightarrow> path (heap mm ! b) \<noteq> p"
    and "refCount (heap mm ! a) = 1"
  shows "\<exists>mm'. unmount mm p ures
             = Inr (mm', map_option (UnmountFailed (controller (heap mm ! a)) (lun (heap mm ! a)) p) ures)
           \<and> mounter mm' = mounter mm @
               [MounterUnmount (controller (heap mm ! a)) (lun (heap mm ! a)) p
                  (config (heap mm ! a))]
           \<and> heap mm' = (heap mm)[a := (heap mm ! a)\<lparr>refCount := 0\<rparr>]
           \<and> mounts mm' = (case ures of Some e \<Rightarrow> mounts mm | None \<Rightarrow> (mounts mm)[j := None])"
proof -
  have loop: "unmount_loop (heap mm) p None (mounts mm) = Some a"
    by (rule unmount_loop_first [OF assms(2,3,4,5)])
  from wf_slot [OF assms(1,2,3)] have a: "a < length (heap mm)" "index (heap mm ! a) = j"
    by simp_all
  show ?thesis
    using loop a assms(2,4,6)
    by (cases ures) (simp_all add: unmount_def Let_def untrackMount_def)
qed

theorem unmount_last_reference_witness:
  "\<exists>mm'. unmount ex_two ''/b'' None = Inr (mm', None)
     \<and> mounter mm' = mounter ex_two @ [MounterUnmount 0 2 ''/b'' 1]
     \<and> refCount (heap mm' ! 1) = 0
     \<and> mounts mm' = [Some 0, None]"
proof -
  have "\<exists>mm'. unmount ex_two ''/b'' None
             = Inr (mm', map_option
                 (UnmountFailed (controller (heap ex_two ! 1)) (lun (heap ex_two ! 1)) ''/b'') None)
           \<and> mounter mm' = mounter ex_two @
               [MounterUnmount (controller (heap ex_two ! 1)) (lun (heap ex_two ! 1)) ''/b''
                  (config (heap ex_two ! 1))]
           \<and> heap mm' = (heap ex_two)[1 := (heap ex_two ! 1)\<lparr>refCount := 0\<rparr>]
           \<and> mounts mm' = (case None :: error option of Some e \<Rightarrow> mounts ex_two
                            | None \<Rightarrow> (mounts ex_two)[1 := None])"
  proof (rule unmount_last_reference [of ex_two 1 1])
    show "wf_state ex_two"
      by (simp add: wf_state_def ex_defs All_less_Suc)
    show "1 < length (mounts ex_two)" "mounts ex_two ! 1 = Some 1"
      "path (heap ex_two ! 1) = ''/b''" "refCount (heap ex_two ! 1) = 1"
      "\<forall>k<1. \<forall>b. mounts ex_two ! k = Some b \<longrightarrow> path (heap ex_two ! b) \<noteq> ''/b''"
      by (simp_all add: ex_defs)
  qed
  then show ?thesis
    by (auto simp: ex_defs)
qed

text \<open>
  The claim that the entry is untracked after a failed \<open>mounter.unmount\<close> fails: the error
  is returned and slot 0 still holds the entry, with count zero.
\<close>

theorem unmount_last_reference_counterexample:
  "run ex_new [Mount None 0 1 ''/a'' (Some 0) None, Mount None 0 2 ''/b'' (Some 1) None]
     = Inr ex_two
   \<and> unmount ex_two ''/a'' (Some (External ''EBUSY''))
     = Inr (ex_two\<lparr>mounter := mounter ex_two @ [MounterUnmount 0 1 ''/a'' 0],
                   heap := (heap ex_two)[0 := (heap ex_two ! 0)\<lparr>refCount := 0\<rparr>]\<rparr>,
            Some (UnmountFailed 0 1 ''/a'' (External ''EBUSY'')))
   \<and> mounts (ex_two\<lparr>mounter := mounter ex_two @ [MounterUnmount 0 1 ''/a'' 0],
                   heap := (heap ex_two)[0 := (heap ex_two ! 0)\<lparr>refCount := 0\<rparr>]\<rparr>) ! 0 = Some 0"
  by (simp add: ex_defs mm_defs)

text \<open>What \<open>unmount\<close> does once its loop has settled on a struct.\<close>

lemma unmount_target:
  assumes "wf_state mm" "unmount_loop (heap mm) p None (mounts mm) = Some a" "a < length (heap mm)"
  shows "unmount mm p ures =
           (if refCount (heap mm ! a) - 1 \<noteq> 0
            then Inr (mm\<lparr>heap := (heap mm)
                         [a := (heap mm ! a)\<lparr>refCount := refCount (heap mm ! a) - 1\<rparr>]\<rparr>, None)
            else Inr (mm\<lparr>heap := (heap mm)[a := (heap mm ! a)\<lparr>refCount := 0\<rparr>],
                         mounter := mounter mm @
                           [MounterUnmount (controller (heap mm ! a)) (lun (heap mm ! a))
                              (path (heap mm ! a)) (config (heap mm ! a))],
                         mounts := (case ures of
                                      Some e \<Rightarrow> mounts mm
                                    | None \<Rightarrow> (mounts mm)[index (heap mm ! a) := None])\<rparr>,
                      map_option (UnmountFailed (controller (heap mm ! a)) (lun (heap mm ! a))
                                    (path (heap mm ! a))) ures))"
proof -
  have i: "index (heap mm ! a) < length (mounts mm)"
    by (rule wf_index [OF assms(1,3)])
  show ?thesis
  proof (cases "refCount (heap mm ! a) - 1 = 0")
    case True
    then show ?thesis using assms(2,3) i
      by (cases ures) (simp_all add: unmount_def Let_def untrackMount_def)
  next
    case False
    then have "0 < refCount (heap mm ! a) - 1"
      by (simp add: word_greater_zero_iff)
    then show ?thesis using assms(2,3) False
      by (simp add: unmount_def Let_def)
  qed
qed

text \<open>
  C5 fails on the code: after a mount at the caller-supplied path \<^verbatim>\<open>/run/mounts/scsi/m1\<close>
  (slot 0) and a mount with no path (slot 1, path generated from the template and the index
  1), two live entries have the same path.
\<close>

theorem generated_path_collides:
  "run ex_new
     [Mount None 0 0 ''/run/mounts/scsi/m1'' (Some 0) None, Mount None 0 1 [] (Some 1) None]
     = Inr ex_collide
   \<and> mounts ex_collide = [Some 0, Some 1]
   \<and> path (heap ex_collide ! 0) = ''/run/mounts/scsi/m1''
   \<and> path (heap ex_collide ! 1) = ''/run/mounts/scsi/m1''"
  by (simp add: ex_defs mm_defs)

lemma unmount_loop_in_table:
  "unmount_loop h p cur ms = Some a \<Longrightarrow> cur = Some a \<or> Some a \<in> set ms"
proof (induction ms arbitrary: cur)
  case Nil
  then show ?case by simp
next
  case (Cons x ms)
  then show ?case
    by (cases x) (auto split: if_splits)
qed

lemma first_owner_exists:
  assumes "Some b \<in> set ms" "path (h ! b) = p"
  shows "\<exists>j a. j < length ms \<and> ms ! j = Some a \<and> path (h ! a) = p
           \<and> (\<forall>k<j. \<forall>b. ms ! k = Some b \<longrightarrow> path (h ! b) \<noteq> p)"
proof -
  let ?P = "\<lambda>j. j < length ms \<and> (\<exists>a. ms ! j = Some a \<and> path (h ! a) = p)"
  from assms obtain j0 where "?P j0"
    by (auto simp: in_set_conv_nth)
  define j where "j = (LEAST j. ?P j)"
  have j: "?P j" unfolding j_def by (rule LeastI [of ?P, OF \<open>?P j0\<close>])
  have least: "\<not> ?P k" if "k < j" for k
    using that not_less_Least [of k ?P] unfolding j_def by blast
  from j obtain a where a: "ms ! j = Some a" "path (h ! a) = p"
    by blast
  have "\<forall>k<j. \<forall>b. ms ! k = Some b \<longrightarrow> path (h ! b) \<noteq> p"
  proof (intro allI impI)
    fix k b assume k: "k < j" "ms ! k = Some b"
    then have "k < length ms" using j by simp
    with least [OF k(1)] k(2) show "path (h ! b) \<noteq> p" by blast
  qed
  with j a show ?thesis by blast
qed

text \<open>
  C10, as amended: if no live entry has the given path, the search loop of \<open>unmount\<close> ends
  with its variable holding nil (empty table, or nil last slot) or the last slot of the
  table; in the first case the decrement is a nil dereference, in the second it decrements
  the reference count of that entry, whose path is another one. If some live entry has the
  path, there is a first one (in the lowest-numbered slot), the call does not panic, and the
  decrement is applied to that first entry and to nothing else; an entry with the same path
  in a higher slot is left as it is.
\<close>

theorem unmount_needs_an_owner:
  assumes "wf_state mm"
  shows "((\<forall>b. Some b \<in> set (mounts mm) \<longrightarrow> path (heap mm ! b) \<noteq> p) \<longrightarrow>
            unmount_loop (heap mm) p None (mounts mm)
              = (if mounts mm = [] then None else last (mounts mm))
            \<and> (mounts mm = [] \<or> last (mounts mm) = None \<longrightarrow>
                 unmount mm p ures = Inl NilDereference)
            \<and> (\<forall>b. mounts mm \<noteq> [] \<and> last (mounts mm) = Some b \<longrightarrow>
                 path (heap mm ! b) \<noteq> p
                 \<and> (\<exists>mm' r. unmount mm p ures = Inr (mm', r)
                      \<and> heap mm' = (heap mm)
                          [b := (heap mm ! b)\<lparr>refCount := refCount (heap mm ! b) - 1\<rparr>])))
       \<and> ((\<exists>b. Some b \<in> set (mounts mm) \<and> path (heap mm ! b) = p) \<longrightarrow>
            (\<exists>j a. j < length (mounts mm) \<and> mounts mm ! j = Some a \<and> path (heap mm ! a) = p
               \<and> (\<forall>k<j. \<forall>b. mounts mm ! k = Some b \<longrightarrow> path (heap mm ! b) \<noteq> p)))
       \<and> (\<forall>j a. j < length (mounts mm) \<and> mounts mm ! j = Some a \<and> path (heap mm ! a) = p
              \<and> (\<forall>k<j. \<forall>b. mounts mm ! k = Some b \<longrightarrow> path (heap mm ! b) \<noteq> p) \<longrightarrow>
            (\<exists>mm' r. unmount mm p ures = Inr (mm', r)
               \<and> heap mm' = (heap mm)
                   [a := (heap mm ! a)\<lparr>refCount := refCount (heap mm ! a) - 1\<rparr>]))"
proof -
  have A: "unmount_loop (heap mm) p None (mounts mm)
        = (if mounts mm = [] then None else last (mounts mm))
      \<and> (mounts mm = [] \<or> last (mounts mm) = None \<longrightarrow>
           unmount mm p ures = Inl NilDereference)
      \<and> (\<forall>b. mounts mm \<noteq> [] \<and> last (mounts mm) = Some b \<longrightarrow>
           path (heap mm ! b) \<noteq> p
           \<and> (\<exists>mm' r. unmount mm p ures = Inr (mm', r)
                \<and> heap mm' = (heap mm)
                    [b := (heap mm ! b)\<lparr>refCount := refCount (heap mm ! b) - 1\<rparr>]))"
    if none: "\<forall>b. Some b \<in> set (mounts mm) \<longrightarrow> path (heap mm ! b) \<noteq> p"
  proof -
    have loop: "unmount_loop (heap mm) p None (mounts mm)
        = (if mounts mm = [] then None else last (mounts mm))"
      using none by (intro unmount_loop_no_owner) blast
    have nil: "unmount mm p ures = Inl NilDereference"
      if "mounts mm = [] \<or> last (mounts mm) = None"
      using that loop by (auto simp: unmount_def)
    have other: "path (heap mm ! b) \<noteq> p
        \<and> (\<exists>mm' r. unmount mm p ures = Inr (mm', r)
             \<and> heap mm' = (heap mm)
                 [b := (heap mm ! b)\<lparr>refCount := refCount (heap mm ! b) - 1\<rparr>])"
      if b: "mounts mm \<noteq> [] \<and> last (mounts mm) = Some b" for b
    proof -
      from b have live: "Some b \<in> set (mounts mm)"
        by (metis last_in_set)
      have l: "unmount_loop (heap mm) p None (mounts mm) = Some b"
        using loop b by simp
      have len: "b < length (heap mm)"
        by (rule wf_live(1) [OF assms live])
      show ?thesis
        using none live unmount_target [OF assms l len, of ures] by auto
    qed
    from loop nil other show ?thesis
      by blast
  qed
  have B: "\<exists>j a. j < length (mounts mm) \<and> mounts mm ! j = Some a \<and> path (heap mm ! a) = p
      \<and> (\<forall>k<j. \<forall>b. mounts mm ! k = Some b \<longrightarrow> path (heap mm ! b) \<noteq> p)"
    if "\<exists>b. Some b \<in> set (mounts mm) \<and> path (heap mm ! b) = p"
  proof -
    from that obtain b where "Some b \<in> set (mounts mm)" "path (heap mm ! b) = p"
      by blast
    then show ?thesis
      by (rule first_owner_exists)
  qed
  have C: "\<exists>mm' r. unmount mm p ures = Inr (mm', r)
      \<and> heap mm' = (heap mm)[a := (heap mm ! a)\<lparr>refCount := refCount (heap mm ! a) - 1\<rparr>]"
    if first: "j < length (mounts mm) \<and> mounts mm ! j = Some a \<and> path (heap mm ! a) = p
      \<and> (\<forall>k<j. \<forall>b. mounts mm ! k = Some b \<longrightarrow> path (heap mm ! b) \<noteq> p)" for j a
  proof -
    from first have l: "unmount_loop (heap mm) p None (mounts mm) = Some a"
      by (intro unmount_loop_first [of j]) auto
    have len: "a < length (heap mm)"
      using wf_slot [OF assms, of j a] first by simp
    show ?thesis
      using unmount_target [OF assms l len, of ures] by auto
  qed
  from A B C show ?thesis
    by blast
qed

theorem unmount_needs_an_owner_witness:
  "wf_state ex_two
   \<and> unmount_loop (heap ex_two) ''/c'' None (mounts ex_two) = Some 1
   \<and> path (heap ex_two ! 1) \<noteq> ''/c''
   \<and> (\<exists>mm' r. unmount ex_two ''/c'' None = Inr (mm', r) \<and> refCount (heap mm' ! 1) = 0)
   \<and> (\<exists>mm' r. unmount ex_collide ''/run/mounts/scsi/m1'' None = Inr (mm', r)
        \<and> refCount (heap mm' ! 0) = 0 \<and> refCount (heap mm' ! 1) = 1)
   \<and> unmount ex_new ''/a'' None = Inl NilDereference"
proof -
  have w: "wf_state ex_two"
    by (simp add: wf_state_def ex_defs All_less_Suc)
  have wc: "wf_state ex_collide"
    by (simp add: wf_state_def ex_defs All_less_Suc)
  have w0: "wf_state ex_new"
    by (simp add: wf_state_def ex_defs)
  have none: "\<forall>b. Some b \<in> set (mounts ex_two) \<longrightarrow> path (heap ex_two ! b) \<noteq> ''/c''"
    by (simp add: ex_defs)
  have last: "mounts ex_two \<noteq> [] \<and> last (mounts ex_two) = Some 1"
    by (simp add: ex_defs)
  have first: "0 < length (mounts ex_collide) \<and> mounts ex_collide ! 0 = Some 0
      \<and> path (heap ex_collide ! 0) = ''/run/mounts/scsi/m1''
      \<and> (\<forall>k<0. \<forall>b. mounts ex_collide ! k = Some b
            \<longrightarrow> path (heap ex_collide ! b) \<noteq> ''/run/mounts/scsi/m1'')"
    by (simp add: ex_defs)
  have "unmount_loop (heap ex_two) ''/c'' None (mounts ex_two) = Some 1"
    using unmount_needs_an_owner [OF w, of "''/c''" None] none last by simp
  moreover have "path (heap ex_two ! 1) \<noteq> ''/c''
      \<and> (\<exists>mm' r. unmount ex_two ''/c'' None = Inr (mm', r)
           \<and> heap mm' = (heap ex_two)
               [1 := (heap ex_two ! 1)\<lparr>refCount := refCount (heap ex_two ! 1) - 1\<rparr>])"
    using unmount_needs_an_owner [OF w, of "''/c''" None] none last by blast
  moreover have "\<exists>mm' r. unmount ex_collide ''/run/mounts/scsi/m1'' None = Inr (mm', r)
      \<and> heap mm' = (heap ex_collide)
          [0 := (heap ex_collide ! 0)\<lparr>refCount := refCount (heap ex_collide ! 0) - 1\<rparr>]"
    using unmount_needs_an_owner [OF wc, of "''/run/mounts/scsi/m1''" None] first by blast
  moreover have "unmount ex_new ''/a'' None = Inl NilDereference"
    using unmount_needs_an_owner [OF w0, of "''/a''" None] by (simp add: ex_defs)
  ultimately show ?thesis
    using w by (auto simp: ex_defs)
qed

text \<open>
  The claim that the decrement always goes to the live entry that owns the path fails where
  two live entries have the path: in \<open>ex_collide\<close> the entry of lun 1 in slot 1 is live and
  has the path, but \<open>unmount\<close> of that path takes the count of the entry of lun 0 in slot 0
  to zero and clears slot 0; the entry in slot 1 keeps its count.
\<close>

theorem unmount_needs_an_owner_counterexample:
  "run ex_new
     [Mount None 0 0 ''/run/mounts/scsi/m1'' (Some 0) None, Mount None 0 1 [] (Some 1) None]
     = Inr ex_collide
   \<and> mounts ex_collide ! 1 = Some 1
   \<and> path (heap ex_collide ! 1) = ''/run/mounts/scsi/m1''
   \<and> refCount (heap ex_collide ! 1) = 1
   \<and> unmount ex_collide ''/run/mounts/scsi/m1'' None
     = Inr (ex_collide\<lparr>mounter := mounter ex_collide @
                         [MounterUnmount 0 0 ''/run/mounts/scsi/m1'' 0],
                       heap := [(ex_mount 0 ''/run/mounts/scsi/m1'' 0 0)\<lparr>refCount := 0\<rparr>,
                                ex_mount 1 ''/run/mounts/scsi/m1'' 1 1],
                       mounts := [None, Some 1]\<rparr>, None)"
  by (simp add: ex_defs mm_defs)

subsection \<open>Reference counts\<close>

lemma refCount_update_same:
  "refCount m' = refCount (h ! a) \<Longrightarrow> map refCount (h[a := m']) = map refCount h"
  by (cases "a < length h") (simp_all add: map_update list_update_same_conv list_update_beyond)

lemma refCount_at_cong:
  assumes "map refCount (heap mm') = map refCount (heap mm)"
  shows "refCount_at mm' a = refCount_at mm a"
proof -
  from assms have l: "length (heap mm') = length (heap mm)"
    by (metis length_map)
  show ?thesis
  proof (cases "a < length (heap mm)")
    case True
    then have "map refCount (heap mm') ! a = refCount (heap mm' ! a)"
      "map refCount (heap mm) ! a = refCount (heap mm ! a)"
      using l by simp_all
    with assms True l show ?thesis by (simp add: refCount_at_def)
  next
    case False
    with l show ?thesis by (simp add: refCount_at_def)
  qed
qed

lemma refCount_from_Close:
  "mount_from mm (Close a ret) = Inr (mm', rs) \<Longrightarrow>
     map refCount (heap mm') = map refCount (heap mm)"
  unfolding mount_from_Close by (auto split: chan.splits simp: refCount_update_same)

lemma refCount_from_SetWaitErr:
  assumes "mount_from mm (SetWaitErr a err ret) = Inr (mm', rs)"
  shows "map refCount (heap mm') = map refCount (heap mm)"
  using refCount_from_Close [OF assms [unfolded mount_from_SetWaitErr]]
  by (simp add: refCount_update_same)

lemma refCount_from_Deferred:
  assumes "mount_from mm (Deferred a err ret) = Inr (mm', rs)"
  shows "map refCount (heap mm') = map refCount (heap mm)"
proof (cases err)
  case None
  with assms show ?thesis
    unfolding mount_from_Deferred
    by (auto simp del: mount_from.simps dest: refCount_from_SetWaitErr)
next
  case (Some e)
  with assms obtain mm1 where u: "untrackMount mm a = Inr mm1"
    and r: "mount_from mm1 (SetWaitErr a err ret) = Inr (mm', rs)"
    unfolding mount_from_Deferred by (auto simp del: mount_from.simps split: sum.splits)
  from u have "heap mm1 = heap mm"
    by (auto simp: untrackMount_def Let_def split: if_splits)
  with refCount_from_SetWaitErr [OF r] show ?thesis by simp
qed

lemma refCount_from_Call:
  assumes "mount_from mm (Call ctl ln a c mres) = Inr (mm', rs)"
  shows "map refCount (heap mm') = map refCount (heap mm)"
  using refCount_from_Deferred [OF assms [unfolded mount_from_Call]] by simp

lemma refCount_at_mount:
  assumes "wf_state mm" "mount mm ctx ctl ln p c0 mres = Inr (mm', rs)"
  shows "refCount_at mm' a
           = refCount_at mm a
             + (if reaches mm (Mount ctx ctl ln p c0 mres) = Some a then 1 else 0)"
proof (cases c0)
  case None
  with assms show ?thesis by (simp add: mount_None)
next
  case (Some c)
  define mm1 where "mm1 = sortStrings mm (options (configs mm ! c))"
  have h1: "heap mm1 = heap mm" and m1: "mounts mm1 = mounts mm"
    by (simp_all add: mm1_def sortStrings_fields)
  have w1: "wf_state mm1"
    by (simp add: mm1_def wf_sortStrings assms(1))
  have r1: "refCount_at mm1 a = refCount_at mm a"
    by (simp add: refCount_at_def h1)
  from assms(2) Some have run: "mount_from mm1 (Track ctx ctl ln p c mres) = Inr (mm', rs)"
    by (simp add: mount_Some mm1_def del: mount_from.simps)
  have reach: "reaches mm (Mount ctx ctl ln p c0 mres)
      = (case trackMount_loop mm1 ctl ln p c 0 None (mounts mm1) of
           Existed a \<Rightarrow> Some a | Conflict \<Rightarrow> None | NotFound f \<Rightarrow> Some (length (heap mm1)))"
    using Some unfolding mm1_def by (simp add: Let_def)
  show ?thesis
  proof (cases "trackMount_loop mm1 ctl ln p c 0 None (mounts mm1)")
    case (Existed b)
    from trackMount_loop_Existed_D [OF Existed] have "Some b \<in> set (mounts mm1)"
      by simp
    then have b: "b < length (heap mm1)"
      by (rule wf_live(1) [OF w1])
    from run Existed have "mm' = mm1\<lparr>heap := (heap mm1)
        [b := (heap mm1 ! b)\<lparr>refCount := refCount (heap mm1 ! b) + 1\<rparr>]\<rparr>"
      unfolding mount_from_Track by (simp add: trackMount_def)
    then have "refCount_at mm' a = refCount_at mm1 a + (if b = a then 1 else 0)"
      using b by (auto simp: refCount_at_def)
    then show ?thesis
      using r1 reach Existed by auto
  next
    case Conflict
    with run have "mm' = mm1"
      unfolding mount_from_Track by (simp add: trackMount_def)
    then show ?thesis
      using r1 reach Conflict by simp
  next
    case (NotFound f)
    obtain mm2 where t: "trackMount mm1 ctl ln p c = (mm2, Inr (length (heap mm1), False))"
      using NotFound by (simp add: trackMount_def Let_def)
    from t run have c: "mount_from mm2 (Call ctl ln (length (heap mm1)) c mres) = Inr (mm', rs)"
      unfolding mount_from_Track by (simp del: mount_from.simps)
    from t NotFound have "\<exists>m. heap mm2 = heap mm1 @ [m] \<and> refCount m = 1"
      by (auto simp: trackMount_def Let_def)
    then obtain m where m: "heap mm2 = heap mm1 @ [m]" "refCount m = 1"
      by blast
    have "refCount_at mm' a = refCount_at mm2 a"
      by (rule refCount_at_cong [OF refCount_from_Call [OF c]])
    also have "\<dots> = refCount_at mm1 a + (if length (heap mm1) = a then 1 else 0)"
      using m by (auto simp: refCount_at_def nth_append)
    finally show ?thesis
      using r1 reach NotFound by auto
  qed
qed

lemma refCount_at_unmount:
  assumes "wf_state mm" "unmount mm p ures = Inr (mm', r)"
  shows "refCount_at mm' a
           = refCount_at mm a - (if reaches mm (Unmount p ures) = Some a then 1 else 0)"
proof -
  from assms(2) obtain b where b: "unmount_loop (heap mm) p None (mounts mm) = Some b"
    by (auto simp: unmount_def split: option.splits)
  from unmount_loop_in_table [OF b] have "Some b \<in> set (mounts mm)"
    by simp
  then have len: "b < length (heap mm)"
    by (rule wf_live(1) [OF assms(1)])
  have "heap mm' = (heap mm)[b := (heap mm ! b)\<lparr>refCount := refCount (heap mm ! b) - 1\<rparr>]"
    using unmount_target [OF assms(1) b len, of ures] assms(2)
    by (auto split: if_splits)
  then have "refCount_at mm' a = refCount_at mm a - (if b = a then 1 else 0)"
    using len by (auto simp: refCount_at_def)
  with b show ?thesis by simp
qed

lemma refCount_at_run:
  "wf_state mm \<Longrightarrow> run mm xs = Inr mm' \<Longrightarrow>
     refCount_at mm' a
       = refCount_at mm a + of_nat (mounts_of mm a xs) - of_nat (unmounts_of mm a xs)"
proof (induction xs arbitrary: mm)
  case Nil
  then show ?case by simp
next
  case (Cons x xs)
  from Cons.prems(2) obtain mm1 where s: "apply_op mm x = Inr mm1" and r: "run mm1 xs = Inr mm'"
    by (cases "apply_op mm x") auto
  have w1: "wf_state mm1"
    by (rule wf_apply_op [OF Cons.prems(1) s])
  note IH = Cons.IH [OF w1 r]
  show ?case
  proof (cases x)
    case (Mount ctx ctl ln p c0 mres)
    with s obtain rs where "mount mm ctx ctl ln p c0 mres = Inr (mm1, rs)"
      by (cases "mount mm ctx ctl ln p c0 mres") auto
    from refCount_at_mount [OF Cons.prems(1) this, of a] IH s Mount show ?thesis
      by (simp del: reaches.simps apply_op.simps)
  next
    case (Unmount p ures)
    with s obtain e where "unmount mm p ures = Inr (mm1, e)"
      by (cases "unmount mm p ures") auto
    from refCount_at_unmount [OF Cons.prems(1) this, of a] IH s Unmount show ?thesis
      by (simp del: reaches.simps apply_op.simps)
  qed
qed

text \<open>
  C2, as amended. In a state whose table is well formed:
  \<^item> a \<^verbatim>\<open>mount\<close> call that returns adds one to the reference count of the struct it reaches
    (the entry \<^verbatim>\<open>trackMount\<close> finds or creates) and changes no other count, whatever it
    returns, the error of a done context included;
  \<^item> an \<^verbatim>\<open>unmount\<close> call that returns subtracts one from the reference count of one live
    entry, the one its search loop ends with, and changes no other count; it calls
    \<^verbatim>\<open>mounter.unmount\<close>, once and for that entry, exactly when the new count is zero, and
    does not call it otherwise;
  \<^item> the entry the search ends with is the first live entry with the path, in the
    lowest-numbered slot;
  \<^item> so after any sequence of \<^verbatim>\<open>mount\<close> and \<^verbatim>\<open>unmount\<close> calls that returns, the reference
    count of every struct is its count before, plus the number of \<^verbatim>\<open>mount\<close> calls that
    reached it, minus the number of \<^verbatim>\<open>unmount\<close> calls that reached it (in 64-bit unsigned
    arithmetic).
\<close>

theorem refCount_counts_mounts_and_unmounts:
  assumes "wf_state mm"
  shows "(mount mm ctx ctl ln p c0 mres = Inr (mm1, rs) \<longrightarrow>
            (\<forall>a. refCount_at mm1 a
                   = refCount_at mm a
                     + (if reaches mm (Mount ctx ctl ln p c0 mres) = Some a then 1 else 0)))
       \<and> (unmount mm q ures = Inr (mm2, r) \<longrightarrow>
            (\<exists>b. reaches mm (Unmount q ures) = Some b \<and> Some b \<in> set (mounts mm)
               \<and> (\<forall>a. refCount_at mm2 a = refCount_at mm a - (if a = b then 1 else 0))
               \<and> mounter mm2
                   = (if refCount_at mm2 b = 0
                      then mounter mm @
                             [MounterUnmount (controller (heap mm ! b)) (lun (heap mm ! b))
                                (path (heap mm ! b)) (config (heap mm ! b))]
                      else mounter mm)))
       \<and> (j < length (mounts mm) \<and> mounts mm ! j = Some a \<and> path (heap mm ! a) = q
            \<and> (\<forall>k<j. \<forall>b. mounts mm ! k = Some b \<longrightarrow> path (heap mm ! b) \<noteq> q) \<longrightarrow>
            reaches mm (Unmount q ures) = Some a)
       \<and> (run mm xs = Inr mm' \<longrightarrow>
            (\<forall>a. refCount_at mm' a
                   = refCount_at mm a + of_nat (mounts_of mm a xs)
                     - of_nat (unmounts_of mm a xs)))"
proof -
  have A: "\<forall>a. refCount_at mm1 a
      = refCount_at mm a + (if reaches mm (Mount ctx ctl ln p c0 mres) = Some a then 1 else 0)"
    if "mount mm ctx ctl ln p c0 mres = Inr (mm1, rs)"
    using refCount_at_mount [OF assms that] by blast
  have B: "\<exists>b. reaches mm (Unmount q ures) = Some b \<and> Some b \<in> set (mounts mm)
      \<and> (\<forall>a. refCount_at mm2 a = refCount_at mm a - (if a = b then 1 else 0))
      \<and> mounter mm2
          = (if refCount_at mm2 b = 0
             then mounter mm @
                    [MounterUnmount (controller (heap mm ! b)) (lun (heap mm ! b))
                       (path (heap mm ! b)) (config (heap mm ! b))]
             else mounter mm)"
    if u: "unmount mm q ures = Inr (mm2, r)"
  proof -
    from u obtain b where b: "unmount_loop (heap mm) q None (mounts mm) = Some b"
      by (auto simp: unmount_def split: option.splits)
    from unmount_loop_in_table [OF b] have live: "Some b \<in> set (mounts mm)"
      by simp
    then have len: "b < length (heap mm)"
      by (rule wf_live(1) [OF assms])
    have counts: "refCount_at mm2 a = refCount_at mm a - (if a = b then 1 else 0)" for a
      using refCount_at_unmount [OF assms u, of a] b by auto
    from counts [of b] len have c: "refCount_at mm2 b = refCount (heap mm ! b) - 1"
      by (simp add: refCount_at_def)
    have "mounter mm2
        = (if refCount (heap mm ! b) - 1 = 0
           then mounter mm @
                  [MounterUnmount (controller (heap mm ! b)) (lun (heap mm ! b))
                     (path (heap mm ! b)) (config (heap mm ! b))]
           else mounter mm)"
      using unmount_target [OF assms b len, of ures] u
      by (auto split: if_splits)
    with b live counts c show ?thesis
      by auto
  qed
  have C: "reaches mm (Unmount q ures) = Some a"
    if "j < length (mounts mm) \<and> mounts mm ! j = Some a \<and> path (heap mm ! a) = q
      \<and> (\<forall>k<j. \<forall>b. mounts mm ! k = Some b \<longrightarrow> path (heap mm ! b) \<noteq> q)"
    using that by (simp only: reaches.simps) (intro unmount_loop_first [of j], auto)
  have D: "\<forall>a. refCount_at mm' a
      = refCount_at mm a + of_nat (mounts_of mm a xs) - of_nat (unmounts_of mm a xs)"
    if "run mm xs = Inr mm'"
    using refCount_at_run [OF assms that] by blast
  from A B C D show ?thesis
    by blast
qed

theorem refCount_counts_mounts_and_unmounts_witness:
  "wf_state ex_two
   \<and> refCount_at ex_two 0 = 1
   \<and> mounts_of ex_two 0
       [Mount None 0 1 ''/a'' (Some 2) None,
        Mount (Some (External ''context canceled'')) 0 1 [] (Some 2) None,
        Unmount ''/a'' None, Unmount ''/a'' None, Unmount ''/a'' None] = 2
   \<and> unmounts_of ex_two 0
       [Mount None 0 1 ''/a'' (Some 2) None,
        Mount (Some (External ''context canceled'')) 0 1 [] (Some 2) None,
        Unmount ''/a'' None, Unmount ''/a'' None, Unmount ''/a'' None] = 3
   \<and> (\<exists>mm'. run ex_two
         [Mount None 0 1 ''/a'' (Some 2) None,
          Mount (Some (External ''context canceled'')) 0 1 [] (Some 2) None,
          Unmount ''/a'' None, Unmount ''/a'' None, Unmount ''/a'' None] = Inr mm'
        \<and> refCount_at mm' 0 = 1 + 2 - 3
        \<and> mounts mm' = [None, Some 1]
        \<and> mounter mm' = mounter ex_two @ [MounterUnmount 0 1 ''/a'' 0])
   \<and> (\<exists>mm2. unmount ex_two ''/b'' None = Inr (mm2, None)
        \<and> reaches ex_two (Unmount ''/b'' None) = Some 1
        \<and> refCount_at mm2 1 = 0 \<and> refCount_at mm2 0 = 1
        \<and> mounter mm2 = mounter ex_two @ [MounterUnmount 0 2 ''/b'' 1])"
proof -
  let ?xs = "[Mount None 0 1 ''/a'' (Some 2) None,
        Mount (Some (External ''context canceled'')) 0 1 [] (Some 2) None,
        Unmount ''/a'' None, Unmount ''/a'' None, Unmount ''/a'' None]"
  have w: "wf_state ex_two"
    by (simp add: wf_state_def ex_defs All_less_Suc)
  have r0: "refCount_at ex_two 0 = 1" "refCount_at ex_two 1 = 1"
    by (simp_all add: refCount_at_def ex_defs)
  have m: "mounts_of ex_two 0 ?xs = 2"
    by (simp add: ex_defs mm_defs)
  have u: "unmounts_of ex_two 0 ?xs = 3"
    by (simp add: ex_defs mm_defs)
  obtain mm' where run: "run ex_two ?xs = Inr mm'" and t: "mounts mm' = [None, Some 1]"
    and c: "mounter mm' = mounter ex_two @ [MounterUnmount 0 1 ''/a'' 0]"
    by (simp add: ex_defs mm_defs)
  obtain mm2 where un: "unmount ex_two ''/b'' None = Inr (mm2, None)"
    by (simp add: ex_defs mm_defs)
  have first: "1 < length (mounts ex_two) \<and> mounts ex_two ! 1 = Some 1
      \<and> path (heap ex_two ! 1) = ''/b''
      \<and> (\<forall>k<1. \<forall>b. mounts ex_two ! k = Some b \<longrightarrow> path (heap ex_two ! b) \<noteq> ''/b'')"
    by (simp add: ex_defs)
  note T = refCount_counts_mounts_and_unmounts
    [OF w, of None 0 0 "[]" None None ex_two "[]" "''/b''" None mm2 None 1 1 ?xs mm']
  from T first have reach: "reaches ex_two (Unmount ''/b'' None) = Some 1"
    by blast
  from T un reach have dec: "\<forall>a. refCount_at mm2 a = refCount_at ex_two a - (if a = 1 then 1 else 0)"
    and rel: "mounter mm2
        = (if refCount_at mm2 1 = 0
           then mounter ex_two @
                  [MounterUnmount (controller (heap ex_two ! 1)) (lun (heap ex_two ! 1))
                     (path (heap ex_two ! 1)) (config (heap ex_two ! 1))]
           else mounter ex_two)"
    by auto
  from dec r0 have d1: "refCount_at mm2 1 = 0" and d0: "refCount_at mm2 0 = 1"
    by simp_all
  from rel d1 have rel': "mounter mm2 = mounter ex_two @ [MounterUnmount 0 2 ''/b'' 1]"
    by (simp add: ex_defs)
  from T run have "refCount_at mm' 0
      = refCount_at ex_two 0 + of_nat (mounts_of ex_two 0 ?xs) - of_nat (unmounts_of ex_two 0 ?xs)"
    by blast
  with r0 m u have cnt: "refCount_at mm' 0 = 1 + 2 - 3"
    by simp
  show ?thesis
    using w r0(1) m u run cnt t c un reach d1 d0 rel' by blast
qed

text \<open>
  The claim as stated fails in two ways. The entry of lun 1 in \<open>ex_collide\<close> is live and has
  the path, yet \<^verbatim>\<open>unmount\<close> of the path leaves its count at one and releases the device of
  lun 0, whose entry sits in the lower slot. And a \<^verbatim>\<open>mount\<close> call that finds the in-flight
  entry of \<open>ex_inflight\<close> with its context cancelled returns the context's error, having
  mounted nothing, but the count it incremented stays at two.
\<close>

theorem refCount_counts_mounts_and_unmounts_counterexample:
  "run ex_new
     [Mount None 0 0 ''/run/mounts/scsi/m1'' (Some 0) None, Mount None 0 1 [] (Some 1) None]
     = Inr ex_collide
   \<and> Some 1 \<in> set (mounts ex_collide)
   \<and> path (heap ex_collide ! 1) = ''/run/mounts/scsi/m1''
   \<and> refCount_at ex_collide 1 = 1
   \<and> map_sum id (\<lambda>(mm', r). (refCount_at mm' 1, refCount_at mm' 0, mounter mm', r))
       (unmount ex_collide ''/run/mounts/scsi/m1'' None)
     = Inr (1, 0, mounter ex_collide @ [MounterUnmount 0 0 ''/run/mounts/scsi/m1'' 0], None)
   \<and> exec (ex_new, [Mounting (Start None 0 2 ''/b'' (Some 0) None)]) [(0, 0), (0, 0)]
     = Some (ex_inflight, [Mounting (Call 0 2 0 0 None)])
   \<and> refCount_at ex_inflight 0 = 1
   \<and> map_sum id (\<lambda>(mm', rs). (refCount_at mm' 0, mounter mm', rs))
       (mount ex_inflight (Some (External ''context canceled'')) 0 2 ''/b'' (Some 1) None)
     = Inr (2, [], [Inl (External ''context canceled'')])"
  by (simp add: ex_defs mm_defs refCount_at_def)

subsection \<open>Steps of other goroutines\<close>

text \<open>
  A step of a goroutine that is not the creator of the struct at \<open>a\<close> leaves the path, the
  error and the channel of that struct as they are, does not put the struct back into the
  table, and does not make the goroutine its creator.
\<close>

lemma frame_refCount:
  assumes "a < length h"
  shows "path (h[b := (h ! b)\<lparr>refCount := n\<rparr>] ! a) = path (h ! a)"
    and "waitErr (h[b := (h ! b)\<lparr>refCount := n\<rparr>] ! a) = waitErr (h ! a)"
    and "waitCh (h[b := (h ! b)\<lparr>refCount := n\<rparr>] ! a) = waitCh (h ! a)"
  using assms by (cases "a = b"; simp)+

lemma not_in_clear_slot: "Some a \<notin> set ms \<Longrightarrow> Some a \<notin> set (ms[i := None])"
  using set_update_subset_insert [of ms i None] by auto

lemma frame_trackMount:
  assumes "a < length (heap mm)" "trackMount mm ctl ln p c = (mm', r)"
  shows "a < length (heap mm') \<and> path (heap mm' ! a) = path (heap mm ! a)
         \<and> waitErr (heap mm' ! a) = waitErr (heap mm ! a)
         \<and> waitCh (heap mm' ! a) = waitCh (heap mm ! a)
         \<and> (Some a \<notin> set (mounts mm) \<longrightarrow> Some a \<notin> set (mounts mm'))
         \<and> (\<forall>b. r = Inr (b, False) \<longrightarrow> b = length (heap mm) \<and> length (heap mm') = Suc b
               \<and> waitCh (heap mm' ! b) = Open \<and> waitErr (heap mm' ! b) = None)"
proof (cases "trackMount_loop mm ctl ln p c 0 None (mounts mm)")
  case (Existed b)
  with assms(2) have "mm' = mm\<lparr>heap := (heap mm)
      [b := (heap mm ! b)\<lparr>refCount := refCount (heap mm ! b) + 1\<rparr>]\<rparr>" and "r = Inr (b, True)"
    by (simp_all add: trackMount_def)
  then show ?thesis
    using assms(1) by (simp add: frame_refCount)
next
  case Conflict
  with assms show ?thesis
    by (auto simp: trackMount_def)
next
  case (NotFound f)
  from assms(2) NotFound
  have "\<exists>m. heap mm' = heap mm @ [m] \<and> waitCh m = Open \<and> waitErr m = None"
    and mm': "mounts mm' = (case f of None \<Rightarrow> mounts mm @ [Some (length (heap mm))]
                       | Some g \<Rightarrow> (mounts mm)[g := Some (length (heap mm))])"
    and r: "r = Inr (length (heap mm), False)"
    by (auto simp: trackMount_def Let_def)
  then obtain m where m: "heap mm' = heap mm @ [m]" "waitCh m = Open" "waitErr m = None"
    by blast
  have "Some a \<notin> set (mounts mm')" if "Some a \<notin> set (mounts mm)"
  proof (cases f)
    case None
    with mm' that assms(1) show ?thesis by auto
  next
    case (Some g)
    have "set ((mounts mm)[g := Some (length (heap mm))])
        \<subseteq> insert (Some (length (heap mm))) (set (mounts mm))"
      by (rule set_update_subset_insert)
    with mm' Some that assms(1) show ?thesis by auto
  qed
  then show ?thesis
    using assms(1) mm' r m by (auto simp: nth_append)
qed

lemma frame_mount_step:
  assumes "a < length (heap mm)" "creating (Mounting pc) \<noteq> Some a"
    and "Inr (mm', pc') \<in> set (mount_step mm pc)"
  shows "a < length (heap mm') \<and> path (heap mm' ! a) = path (heap mm ! a)
         \<and> waitErr (heap mm' ! a) = waitErr (heap mm ! a)
         \<and> waitCh (heap mm' ! a) = waitCh (heap mm ! a)
         \<and> (Some a \<notin> set (mounts mm) \<longrightarrow> Some a \<notin> set (mounts mm'))
         \<and> creating (Mounting pc') \<noteq> Some a"
proof (cases pc)
  case (Start ctx ctl ln p c0 mres)
  with assms show ?thesis
    by (auto simp: sortStrings_fields split: option.splits)
next
  case (Track ctx ctl ln p c mres)
  obtain mm1 r where t: "trackMount mm ctl ln p c = (mm1, r)"
    by (cases "trackMount mm ctl ln p c")
  from assms(3) Track t have mm': "mm' = mm1"
    by (auto split: sum.splits prod.splits bool.splits)
  from assms(3) Track t have pc': "creating (Mounting pc') \<noteq> None \<Longrightarrow>
      \<exists>b. r = Inr (b, False) \<and> creating (Mounting pc') = Some b"
    by (auto split: sum.splits prod.splits bool.splits)
  have "creating (Mounting pc') \<noteq> Some a"
  proof
    assume eq: "creating (Mounting pc') = Some a"
    with pc' have "r = Inr (a, False)" by auto
    with frame_trackMount [OF assms(1) t] assms(1) show False by auto
  qed
  with frame_trackMount [OF assms(1) t] mm' show ?thesis
    by simp
next
  case (Select ctx b)
  with assms show ?thesis by auto
next
  case (Call ctl ln b c mres)
  with assms show ?thesis
    by (auto simp: Let_def split: option.splits)
next
  case (Deferred b err ret)
  with assms show ?thesis
    by (auto simp: untrackMount_def Let_def not_in_clear_slot
        split: option.splits sum.splits if_splits)
next
  case (SetWaitErr b err ret)
  with assms show ?thesis by auto
next
  case (Close b ret)
  with assms show ?thesis
    by (auto split: chan.splits)
next
  case (Returned ret)
  with assms show ?thesis by simp
qed

lemma frame_unmount:
  assumes "wf_state mm" "a < length (heap mm)" "unmount mm p ures = Inr (mm', r)"
  shows "a < length (heap mm') \<and> path (heap mm' ! a) = path (heap mm ! a)
         \<and> waitErr (heap mm' ! a) = waitErr (heap mm ! a)
         \<and> waitCh (heap mm' ! a) = waitCh (heap mm ! a)
         \<and> (Some a \<notin> set (mounts mm) \<longrightarrow> Some a \<notin> set (mounts mm'))"
proof -
  from assms(3) obtain b where b: "unmount_loop (heap mm) p None (mounts mm) = Some b"
    by (auto simp: unmount_def split: option.splits)
  from unmount_loop_in_table [OF b] have "Some b \<in> set (mounts mm)"
    by simp
  then have len: "b < length (heap mm)"
    by (rule wf_live(1) [OF assms(1)])
  from unmount_target [OF assms(1) b len, of ures] assms(3)
  have h: "heap mm' = (heap mm)[b := (heap mm ! b)\<lparr>refCount := refCount (heap mm ! b) - 1\<rparr>]"
    and t: "mounts mm' = mounts mm \<or> mounts mm' = (mounts mm)[index (heap mm ! b) := None]"
    by (auto split: if_splits option.splits)
  from t have "Some a \<notin> set (mounts mm')" if "Some a \<notin> set (mounts mm)"
    using that not_in_clear_slot [of a "mounts mm"] by auto
  then show ?thesis
    using h assms(2) by (simp add: frame_refCount)
qed

lemma frame_go_step:
  assumes "wf_state mm" "a < length (heap mm)" "creating g \<noteq> Some a"
    and "Inr (mm', g') \<in> set (go_step mm g)"
  shows "a < length (heap mm') \<and> path (heap mm' ! a) = path (heap mm ! a)
         \<and> waitErr (heap mm' ! a) = waitErr (heap mm ! a)
         \<and> waitCh (heap mm' ! a) = waitCh (heap mm ! a)
         \<and> (Some a \<notin> set (mounts mm) \<longrightarrow> Some a \<notin> set (mounts mm'))
         \<and> creating g' \<noteq> Some a"
proof (cases g)
  case (Mounting pc)
  with assms(4) obtain pc' where s: "Inr (mm', pc') \<in> set (mount_step mm pc)"
    and g': "g' = Mounting pc'"
    by (auto simp: map_sum_def split: sum.splits)
  from frame_mount_step [OF assms(2) assms(3) [unfolded Mounting] s] g' show ?thesis
    by simp
next
  case (Unmounting p ures)
  with assms(4) obtain r where u: "unmount mm p ures = Inr (mm', r)" and g': "g' = Unmounted r"
    by (cases "unmount mm p ures") auto
  from frame_unmount [OF assms(1,2) u] g' show ?thesis
    by simp
next
  case (Unmounted r)
  with assms(4) show ?thesis by simp
qed

subsection \<open>Creators\<close>

text \<open>Only \<^verbatim>\<open>trackMount\<close> makes a goroutine the creator of a struct, and the struct is new.\<close>

lemma creator_new:
  assumes "creating g = None" "Inr (mm', g') \<in> set (go_step mm g)" "creating g' = Some a"
  shows "a = length (heap mm) \<and> length (heap mm') = Suc a
         \<and> waitCh (heap mm' ! a) = Open \<and> waitErr (heap mm' ! a) = None"
proof (cases g)
  case (Mounting pc)
  with assms(2) obtain pc' where s: "Inr (mm', pc') \<in> set (mount_step mm pc)"
    and g': "g' = Mounting pc'"
    by (auto simp: map_sum_def split: sum.splits)
  show ?thesis
  proof (cases pc)
    case (Track ctx ctl ln p c mres)
    obtain mm1 r where t: "trackMount mm ctl ln p c = (mm1, r)"
      by (cases "trackMount mm ctl ln p c")
    from s Track t assms(3) g' have "mm' = mm1" "r = Inr (a, False)"
      by (auto split: sum.splits prod.splits bool.splits)
    with t have t': "trackMount mm ctl ln p c = (mm', Inr (a, False))"
      by simp
    show ?thesis
      by (rule trackMount_new [OF t']) (simp add: nth_append)
  next
    case (Start ctx ctl ln p c0 mres)
    with s assms(3) g' show ?thesis by (auto split: option.splits)
  next
    case (Select ctx b)
    with s assms(3) g' show ?thesis by auto
  next
    case (Call ctl ln b c mres)
    with assms(1) Mounting show ?thesis by simp
  next
    case (Deferred b err ret)
    with assms(1) Mounting show ?thesis by simp
  next
    case (SetWaitErr b err ret)
    with assms(1) Mounting show ?thesis by simp
  next
    case (Close b ret)
    with assms(1) Mounting show ?thesis by simp
  next
    case (Returned ret)
    with s show ?thesis by simp
  qed
next
  case (Unmounting p ures)
  with assms(2,3) show ?thesis
    by (cases "unmount mm p ures") auto
next
  case (Unmounted r)
  with assms(2) show ?thesis by simp
qed

text \<open>The steps of a creator up to the close.\<close>

lemma creator_step:
  assumes "creating g = Some a" "a < length (heap mm)"
    and "Inr (mm', g') \<in> set (go_step mm g)" "creating g' = Some a'"
  shows "a' = a \<and> length (heap mm') = length (heap mm)
         \<and> waitCh (heap mm' ! a) = waitCh (heap mm ! a)
         \<and> (\<forall>ctl ln c mres. g' \<noteq> Mounting (Call ctl ln a' c mres))"
proof (cases g)
  case (Mounting pc)
  with assms(3) obtain pc' where s: "Inr (mm', pc') \<in> set (mount_step mm pc)"
    and g': "g' = Mounting pc'"
    by (auto simp: map_sum_def split: sum.splits)
  show ?thesis
  proof (cases pc)
    case (Call ctl ln b c mres)
    with s g' assms(1,4) Mounting show ?thesis
      by (auto simp: Let_def split: option.splits)
  next
    case (Deferred b err ret)
    with s g' assms(1,4) Mounting show ?thesis
      by (auto simp: untrackMount_def Let_def split: option.splits sum.splits if_splits)
  next
    case (SetWaitErr b err ret)
    with s g' assms(1,2,4) Mounting show ?thesis
      by auto
  next
    case (Close b ret)
    with s g' assms(1,4) Mounting show ?thesis
      by (auto split: chan.splits)
  next
    case (Start ctx ctl ln p c0 mres)
    with assms(1) Mounting show ?thesis by simp
  next
    case (Track ctx ctl ln p c mres)
    with assms(1) Mounting show ?thesis by simp
  next
    case (Select ctx b)
    with assms(1) Mounting show ?thesis by simp
  next
    case (Returned ret)
    with assms(1) Mounting show ?thesis by simp
  qed
next
  case (Unmounting p ures)
  with assms(1) show ?thesis by simp
next
  case (Unmounted r)
  with assms(1) show ?thesis by simp
qed

lemma creators_ok_initial:
  "wf_state mm \<Longrightarrow> \<forall>i<length gs. creating (gs ! i) = None \<Longrightarrow> creators_ok mm gs"
  by (simp add: creators_ok_def)

lemma creators_ok_step:
  assumes ok: "creators_ok mm gs" and i: "i < length gs"
    and s: "Inr (mm1, g1) \<in> set (go_step mm (gs ! i))"
  shows "creators_ok mm1 (gs[i := g1])"
proof -
  from ok have w: "wf_state mm"
    by (simp add: creators_ok_def)
  have w1: "wf_state mm1"
    by (rule wf_go_step [OF w s])
  have old: "b < length (heap mm) \<and> waitCh (heap mm ! b) = Open
      \<and> (\<forall>ctl ln c mres. gs ! j = Mounting (Call ctl ln b c mres) \<longrightarrow>
            waitErr (heap mm ! b) = None)
      \<and> (\<forall>i<length gs. i \<noteq> j \<longrightarrow> creating (gs ! i) \<noteq> Some b)"
    if "j < length gs" "creating (gs ! j) = Some b" for j b
    using ok that unfolding creators_ok_def by blast
  have goal: "a < length (heap mm1) \<and> waitCh (heap mm1 ! a) = Open
      \<and> (\<forall>ctl ln c mres. gs[i := g1] ! k = Mounting (Call ctl ln a c mres) \<longrightarrow>
            waitErr (heap mm1 ! a) = None)
      \<and> (\<forall>j<length (gs[i := g1]). j \<noteq> k \<longrightarrow> creating (gs[i := g1] ! j) \<noteq> Some a)"
    if k: "k < length (gs[i := g1])" and c: "creating (gs[i := g1] ! k) = Some a" for k a
  proof (cases "k = i")
    case False
    with k c have ck: "creating (gs ! k) = Some a" and kl: "k < length gs"
      by simp_all
    note o = old [OF kl ck]
    from o i False have ci: "creating (gs ! i) \<noteq> Some a"
      by blast
    from o have al: "a < length (heap mm)"
      by blast
    note f = frame_go_step [OF w al ci s]
    have "creating (gs[i := g1] ! j) \<noteq> Some a" if "j < length gs" "j \<noteq> k" for j
      using that o f i by (cases "j = i") auto
    with f o False show ?thesis
      by auto
  next
    case True
    with c i have c1: "creating g1 = Some a"
      by simp
    show ?thesis
    proof (cases "creating (gs ! i)")
      case None
      note n = creator_new [OF None s c1]
      have "creating (gs[i := g1] ! j) \<noteq> Some a" if "j < length gs" "j \<noteq> k" for j
      proof
        assume "creating (gs[i := g1] ! j) = Some a"
        with that True have "creating (gs ! j) = Some a"
          by simp
        from old [OF that(1) this] n show False
          by simp
      qed
      with n show ?thesis
        by auto
    next
      case (Some b)
      note o = old [OF i Some]
      from o have bl: "b < length (heap mm)"
        by blast
      note st = creator_step [OF Some bl s c1]
      have "creating (gs[i := g1] ! j) \<noteq> Some a" if "j < length gs" "j \<noteq> k" for j
        using that o st True by auto
      with st o True i show ?thesis
        by auto
    qed
  qed
  from w1 goal show ?thesis
    unfolding creators_ok_def by blast
qed

lemma exec_Cons:
  assumes "exec (mm, gs) ((i, n) # sch) = Some st"
  obtains mm1 g1 where "i < length gs" "Inr (mm1, g1) \<in> set (go_step mm (gs ! i))"
    and "exec (mm1, gs[i := g1]) sch = Some st"
proof -
  from assms have i: "i < length gs" and n: "n < length (go_step mm (gs ! i))"
    by (auto split: if_splits)
  from assms i n obtain mm1 g1 where g: "go_step mm (gs ! i) ! n = Inr (mm1, g1)"
    and e: "exec (mm1, gs[i := g1]) sch = Some st"
    by (cases "go_step mm (gs ! i) ! n") auto
  from n g have "Inr (mm1, g1) \<in> set (go_step mm (gs ! i))"
    by (metis nth_mem)
  with i e that show thesis
    by blast
qed

lemma creators_ok_exec:
  "creators_ok mm gs \<Longrightarrow> exec (mm, gs) sch = Some (mm', gs') \<Longrightarrow> creators_ok mm' gs'"
proof (induction sch arbitrary: mm gs)
  case Nil
  then show ?case by simp
next
  case (Cons x sch)
  obtain i n where x: "x = (i, n)"
    by (cases x)
  from Cons.prems(2) [unfolded x] show ?case
  proof (rule exec_Cons)
    fix mm1 g1
    assume "i < length gs" "Inr (mm1, g1) \<in> set (go_step mm (gs ! i))"
      and e: "exec (mm1, gs[i := g1]) sch = Some (mm', gs')"
    then have "creators_ok mm1 (gs[i := g1])"
      using creators_ok_step [OF Cons.prems(1)] by blast
    then show ?thesis
      using e by (rule Cons.IH)
  qed
qed

lemma creator_inv_start:
  assumes "creators_ok mm gs" "k < length gs" "gs ! k = Mounting (Call ctl ln a c mres)"
  shows "creator_inv k a ctl ln c mres (path (heap mm ! a)) mm gs"
proof -
  have "creating (gs ! k) = Some a"
    using assms(3) by simp
  with assms(1,2) have "a < length (heap mm) \<and> waitCh (heap mm ! a) = Open
      \<and> (\<forall>ctl ln c mres. gs ! k = Mounting (Call ctl ln a c mres) \<longrightarrow>
            waitErr (heap mm ! a) = None)
      \<and> (\<forall>i<length gs. i \<noteq> k \<longrightarrow> creating (gs ! i) \<noteq> Some a)"
    unfolding creators_ok_def by blast
  moreover from assms(1) have "wf_state mm"
    by (simp add: creators_ok_def)
  ultimately show ?thesis
    using assms(2,3) by (simp add: creator_inv_def Let_def)
qed

lemma untrackMount_gone:
  assumes "wf_state mm" "a < length (heap mm)" "untrackMount mm a = Inr mm'"
  shows "Some a \<notin> set (mounts mm')"
proof
  assume "Some a \<in> set (mounts mm')"
  moreover from assms(3) have mm': "mm' = mm\<lparr>mounts := (mounts mm)[index (heap mm ! a) := None]\<rparr>"
    by (auto simp: untrackMount_def Let_def split: if_splits)
  ultimately obtain j where j: "j < length (mounts mm)"
      "(mounts mm)[index (heap mm ! a) := None] ! j = Some a"
    by (auto simp: in_set_conv_nth)
  then have ne: "j \<noteq> index (heap mm ! a)"
    by auto
  with j have "mounts mm ! j = Some a"
    by simp
  from wf_slot [OF assms(1) j(1) this] ne show False
    by simp
qed

lemma creator_inv_step:
  assumes inv: "creator_inv k a ctl ln c mres pa mm gs" and i: "i < length gs"
    and s: "Inr (mm1, g1) \<in> set (go_step mm (gs ! i))"
  shows "creator_inv k a ctl ln c mres pa mm1 (gs[i := g1])"
proof -
  define err where "err = map_option (MountFailed ctl ln pa) mres"
  define ret where "ret = (case mres of Some e \<Rightarrow> Inl (MountFailed ctl ln pa e) | None \<Rightarrow> Inr pa)"
  from inv have w: "wf_state mm" and k: "k < length gs" and al: "a < length (heap mm)"
    and pa: "path (heap mm ! a) = pa"
    and others: "\<forall>i<length gs. i \<noteq> k \<longrightarrow> creating (gs ! i) \<noteq> Some a"
    and stage: "gs ! k = Mounting (Call ctl ln a c mres) \<and> waitCh (heap mm ! a) = Open
          \<and> waitErr (heap mm ! a) = None
        \<or> gs ! k = Mounting (Deferred a err ret) \<and> waitCh (heap mm ! a) = Open
          \<and> waitErr (heap mm ! a) = None
        \<or> gs ! k = Mounting (SetWaitErr a err ret) \<and> waitCh (heap mm ! a) = Open
          \<and> waitErr (heap mm ! a) = None \<and> (mres = None \<or> Some a \<notin> set (mounts mm))
        \<or> gs ! k = Mounting (Close a ret) \<and> waitCh (heap mm ! a) = Open
          \<and> waitErr (heap mm ! a) = err \<and> (mres = None \<or> Some a \<notin> set (mounts mm))
        \<or> gs ! k = Mounting (Returned ret) \<and> waitCh (heap mm ! a) = Closed
          \<and> waitErr (heap mm ! a) = err \<and> (mres = None \<or> Some a \<notin> set (mounts mm))"
    unfolding creator_inv_def Let_def err_def ret_def by blast+
  have w1: "wf_state mm1"
    by (rule wf_go_step [OF w s])
  have I: "creator_inv k a ctl ln c mres pa mm1 (gs[i := g1])"
    if "a < length (heap mm1)" "path (heap mm1 ! a) = pa"
      and "\<forall>j<length gs. j \<noteq> k \<longrightarrow> creating (gs[i := g1] ! j) \<noteq> Some a"
      and "gs[i := g1] ! k = Mounting (Call ctl ln a c mres) \<and> waitCh (heap mm1 ! a) = Open
          \<and> waitErr (heap mm1 ! a) = None
        \<or> gs[i := g1] ! k = Mounting (Deferred a err ret) \<and> waitCh (heap mm1 ! a) = Open
          \<and> waitErr (heap mm1 ! a) = None
        \<or> gs[i := g1] ! k = Mounting (SetWaitErr a err ret) \<and> waitCh (heap mm1 ! a) = Open
          \<and> waitErr (heap mm1 ! a) = None \<and> (mres = None \<or> Some a \<notin> set (mounts mm1))
        \<or> gs[i := g1] ! k = Mounting (Close a ret) \<and> waitCh (heap mm1 ! a) = Open
          \<and> waitErr (heap mm1 ! a) = err \<and> (mres = None \<or> Some a \<notin> set (mounts mm1))
        \<or> gs[i := g1] ! k = Mounting (Returned ret) \<and> waitCh (heap mm1 ! a) = Closed
          \<and> waitErr (heap mm1 ! a) = err \<and> (mres = None \<or> Some a \<notin> set (mounts mm1))"
    using that w1 k unfolding creator_inv_def Let_def err_def ret_def by simp
  show ?thesis
  proof (cases "i = k")
    case False
    with others i have ci: "creating (gs ! i) \<noteq> Some a"
      by blast
    note f = frame_go_step [OF w al ci s]
    have "\<forall>j<length gs. j \<noteq> k \<longrightarrow> creating (gs[i := g1] ! j) \<noteq> Some a"
    proof (intro allI impI)
      fix j assume "j < length gs" "j \<noteq> k"
      with others f i show "creating (gs[i := g1] ! j) \<noteq> Some a"
        by (cases "j = i") auto
    qed
    moreover have "gs[i := g1] ! k = gs ! k"
      using False by simp
    ultimately show ?thesis
      using f pa stage by (intro I) auto
  next
    case True
    have oth: "\<forall>j<length gs. j \<noteq> k \<longrightarrow> creating (gs[i := g1] ! j) \<noteq> Some a"
      using others True by simp
    have gk: "gs[i := g1] ! k = g1"
      using True k by simp
    from stage consider
        (Call) "gs ! k = Mounting (Call ctl ln a c mres)" "waitCh (heap mm ! a) = Open"
          "waitErr (heap mm ! a) = None"
      | (Deferred) "gs ! k = Mounting (Deferred a err ret)" "waitCh (heap mm ! a) = Open"
          "waitErr (heap mm ! a) = None"
      | (SetWaitErr) "gs ! k = Mounting (SetWaitErr a err ret)" "waitCh (heap mm ! a) = Open"
          "waitErr (heap mm ! a) = None" "mres = None \<or> Some a \<notin> set (mounts mm)"
      | (Close) "gs ! k = Mounting (Close a ret)" "waitCh (heap mm ! a) = Open"
          "waitErr (heap mm ! a) = err" "mres = None \<or> Some a \<notin> set (mounts mm)"
      | (Returned) "gs ! k = Mounting (Returned ret)"
      by (elim disjE; elim conjE; simp)
    then show ?thesis
    proof cases
      case Call
      from s Call(1) True pa have "g1 = Mounting (Deferred a err ret)"
        "mm1 = mm\<lparr>mounter := mounter mm @ [MounterMount ctl ln pa c]\<rparr>"
        by (auto simp: Let_def err_def ret_def split: option.splits)
      with al pa Call oth gk show ?thesis
        by (intro I) auto
    next
      case Deferred
      show ?thesis
      proof (cases mres)
        case None
        with s Deferred(1) True have "g1 = Mounting (SetWaitErr a err ret)" "mm1 = mm"
          by (auto simp: err_def)
        with al pa Deferred oth gk None show ?thesis
          by (intro I) auto
      next
        case (Some e)
        with s Deferred(1) True have g1: "g1 = Mounting (SetWaitErr a err ret)"
          and u: "untrackMount mm a = Inr mm1"
          by (auto simp: err_def split: sum.splits)
        from u have h: "heap mm1 = heap mm"
          by (auto simp: untrackMount_def Let_def split: if_splits)
        from untrackMount_gone [OF w al u] g1 h al pa Deferred oth gk show ?thesis
          by (intro I) auto
      qed
    next
      case SetWaitErr
      from s SetWaitErr(1) True have "g1 = Mounting (Close a ret)"
        "mm1 = mm\<lparr>heap := (heap mm)[a := (heap mm ! a)\<lparr>waitErr := err\<rparr>]\<rparr>"
        by auto
      with al pa SetWaitErr oth gk show ?thesis
        by (intro I) auto
    next
      case Close
      from s Close(1,2) True have "g1 = Mounting (Returned ret)"
        "mm1 = mm\<lparr>heap := (heap mm)[a := (heap mm ! a)\<lparr>waitCh := Closed\<rparr>]\<rparr>"
        by auto
      with al pa Close oth gk show ?thesis
        by (intro I) auto
    next
      case Returned
      with s True show ?thesis
        by simp
    qed
  qed
qed

lemma creator_inv_exec:
  "creator_inv k a ctl ln c mres pa mm gs \<Longrightarrow> exec (mm, gs) sch = Some (mm', gs') \<Longrightarrow>
     creator_inv k a ctl ln c mres pa mm' gs'"
proof (induction sch arbitrary: mm gs)
  case Nil
  then show ?case by simp
next
  case (Cons x sch)
  obtain i n where x: "x = (i, n)"
    by (cases x)
  from Cons.prems(2) [unfolded x] show ?case
  proof (rule exec_Cons)
    fix mm1 g1
    assume "i < length gs" "Inr (mm1, g1) \<in> set (go_step mm (gs ! i))"
      and e: "exec (mm1, gs[i := g1]) sch = Some (mm', gs')"
    then have "creator_inv k a ctl ln c mres pa mm1 (gs[i := g1])"
      using creator_inv_step [OF Cons.prems(1)] by blast
    then show ?thesis
      using e by (rule Cons.IH)
  qed
qed

subsection \<open>Callers that find the entry\<close>

lemma trackMount_found_live:
  assumes "trackMount mm ctl ln p c = (mm', Inr (b, True))"
  shows "Some b \<in> set (mounts mm)"
proof (cases "trackMount_loop mm ctl ln p c 0 None (mounts mm)")
  case (Existed x)
  with assms have "x = b"
    by (simp add: trackMount_def)
  with trackMount_loop_Existed_D [OF Existed] show ?thesis
    by simp
next
  case Conflict
  with assms show ?thesis
    by (simp add: trackMount_def)
next
  case (NotFound f)
  with assms show ?thesis
    by (simp add: trackMount_def Let_def)
qed

lemma select_Open:
  "waitCh (heap mm ! a) = Open \<Longrightarrow>
     go_step mm (Mounting (Select ctx a))
       = (case ctx of None \<Rightarrow> [] | Some e \<Rightarrow> [Inr (mm, Mounting (Returned (Inl e)))])"
  by (simp add: mount_select_def split: option.splits)

lemma select_Closed:
  "waitCh (heap mm ! a) = Closed \<Longrightarrow>
     go_step mm (Mounting (Select ctx a))
       = (case ctx of None \<Rightarrow> [] | Some e \<Rightarrow> [Inr (mm, Mounting (Returned (Inl e)))])
         @ [Inr (mm, Mounting (Returned (case waitErr (heap mm ! a) of
                                            Some e \<Rightarrow> Inl e
                                          | None \<Rightarrow> Inr (path (heap mm ! a)))))]"
  by (simp add: mount_select_def split: option.splits)

text \<open>What the creator's invariant says once the channel is closed, and while it is open.\<close>

lemma creator_inv_Closed:
  assumes "creator_inv k a ctl ln c mres pa mm gs" "waitCh (heap mm ! a) = Closed"
  shows "gs ! k = Mounting (Returned (case mres of Some e \<Rightarrow> Inl (MountFailed ctl ln pa e)
                                      | None \<Rightarrow> Inr pa))"
    and "waitErr (heap mm ! a) = map_option (MountFailed ctl ln pa) mres"
    and "path (heap mm ! a) = pa"
    and "mres = None \<or> Some a \<notin> set (mounts mm)"
  using assms unfolding creator_inv_def Let_def by auto

lemma creator_inv_Returned:
  assumes "creator_inv k a ctl ln c mres pa mm gs" "gs ! k = Mounting (Returned r)"
  shows "waitCh (heap mm ! a) = Closed"
  using assms unfolding creator_inv_def Let_def by auto

lemma creator_inv_recorded:
  assumes "creator_inv k a ctl ln c mres pa mm gs" "waitErr (heap mm ! a) \<noteq> None"
  shows "Some a \<notin> set (mounts mm)"
  using assms unfolding creator_inv_def Let_def by auto

lemma creator_inv_others:
  assumes "creator_inv k a ctl ln c mres pa mm gs" "i < length gs" "i \<noteq> k"
  shows "creating (gs ! i) \<noteq> Some a"
  using assms unfolding creator_inv_def Let_def by auto

lemma creator_inv_facts:
  assumes "creator_inv k a ctl ln c mres pa mm gs"
  shows "wf_state mm" "k < length gs" "a < length (heap mm)" "path (heap mm ! a) = pa"
    and "creating (gs ! k) = Some a \<or> (\<exists>r. gs ! k = Mounting (Returned r))"
  using assms unfolding creator_inv_def Let_def by auto

lemma exec_length: "exec (mm, gs) sch = Some (mm', gs') \<Longrightarrow> length gs' = length gs"
proof (induction sch arbitrary: mm gs)
  case Nil
  then show ?case by simp
next
  case (Cons x sch)
  obtain i n where x: "x = (i, n)"
    by (cases x)
  from Cons.prems [unfolded x] show ?case
  proof (rule exec_Cons)
    fix mm1 g1
    assume "exec (mm1, gs[i := g1]) sch = Some (mm', gs')"
    from Cons.IH [OF this] show ?thesis by simp
  qed
qed

text \<open>
  A caller in the \<^verbatim>\<open>select\<close> on the struct at \<open>a\<close> stays there or returns; what it returns
  is what the creator returned, the channel being closed, or the error of its own context.
\<close>

lemma joiner_step:
  assumes inv: "creator_inv k a ctl ln c mres pa mm gs" and i: "i < length gs" "i \<noteq> k"
    and J: "gs ! i = Mounting (Select ctx a)
         \<or> (\<exists>r. gs ! i = Mounting (Returned r)
              \<and> (r = (case mres of Some e \<Rightarrow> Inl (MountFailed ctl ln pa e) | None \<Rightarrow> Inr pa)
                   \<and> waitCh (heap mm ! a) = Closed
                 \<or> (\<exists>e. ctx = Some e \<and> r = Inl e)))"
    and j: "j < length gs" and s: "Inr (mm1, g1) \<in> set (go_step mm (gs ! j))"
  shows "gs[j := g1] ! i = Mounting (Select ctx a)
         \<or> (\<exists>r. gs[j := g1] ! i = Mounting (Returned r)
              \<and> (r = (case mres of Some e \<Rightarrow> Inl (MountFailed ctl ln pa e) | None \<Rightarrow> Inr pa)
                   \<and> waitCh (heap mm1 ! a) = Closed
                 \<or> (\<exists>e. ctx = Some e \<and> r = Inl e)))"
proof (cases "j = i")
  case True
  from J show ?thesis
  proof
    assume g: "gs ! i = Mounting (Select ctx a)"
    with s True obtain r where r: "r \<in> set (mount_select ctx (heap mm ! a))"
      and g1: "g1 = Mounting (Returned r)" and mm1: "mm1 = mm"
      by auto
    have "r = (case mres of Some e \<Rightarrow> Inl (MountFailed ctl ln pa e) | None \<Rightarrow> Inr pa)
          \<and> waitCh (heap mm ! a) = Closed
        \<or> (\<exists>e. ctx = Some e \<and> r = Inl e)"
    proof (cases "waitCh (heap mm ! a)")
      case Open
      with r show ?thesis
        by (auto simp: mount_select_def split: option.splits)
    next
      case Closed
      note c = creator_inv_Closed(2,3) [OF inv Closed]
      from r Closed c show ?thesis
        by (cases mres) (auto simp: mount_select_def split: option.splits)
    qed
    with g1 mm1 True i show ?thesis
      by simp
  next
    assume "\<exists>r. gs ! i = Mounting (Returned r)
        \<and> (r = (case mres of Some e \<Rightarrow> Inl (MountFailed ctl ln pa e) | None \<Rightarrow> Inr pa)
             \<and> waitCh (heap mm ! a) = Closed
           \<or> (\<exists>e. ctx = Some e \<and> r = Inl e))"
    with s True show ?thesis
      by auto
  qed
next
  case False
  then have same: "gs[j := g1] ! i = gs ! i"
    by simp
  have "waitCh (heap mm1 ! a) = Closed" if c: "waitCh (heap mm ! a) = Closed"
  proof -
    from creator_inv_Closed(1) [OF inv c] s have "j \<noteq> k"
      by auto
    with creator_inv_others [OF inv j] have "creating (gs ! j) \<noteq> Some a"
      by simp
    from frame_go_step [OF creator_inv_facts(1,3) [OF inv] this s] c show ?thesis
      by simp
  qed
  with J same show ?thesis
    by auto
qed

lemma joiner_exec:
  assumes "creator_inv k a ctl ln c mres pa mm gs" "i < length gs" "i \<noteq> k"
    and "gs ! i = Mounting (Select ctx a)
         \<or> (\<exists>r. gs ! i = Mounting (Returned r)
              \<and> (r = (case mres of Some e \<Rightarrow> Inl (MountFailed ctl ln pa e) | None \<Rightarrow> Inr pa)
                   \<and> waitCh (heap mm ! a) = Closed
                 \<or> (\<exists>e. ctx = Some e \<and> r = Inl e)))"
    and "exec (mm, gs) sch = Some (mm', gs')"
  shows "gs' ! i = Mounting (Select ctx a)
         \<or> (\<exists>r. gs' ! i = Mounting (Returned r)
              \<and> (r = (case mres of Some e \<Rightarrow> Inl (MountFailed ctl ln pa e) | None \<Rightarrow> Inr pa)
                   \<and> waitCh (heap mm' ! a) = Closed
                 \<or> (\<exists>e. ctx = Some e \<and> r = Inl e)))"
  using assms
proof (induction sch arbitrary: mm gs)
  case Nil
  then show ?case by simp
next
  case (Cons x sch)
  obtain j n where x: "x = (j, n)"
    by (cases x)
  from Cons.prems(5) [unfolded x] show ?case
  proof (rule exec_Cons)
    fix mm1 g1
    assume j: "j < length gs" and s: "Inr (mm1, g1) \<in> set (go_step mm (gs ! j))"
      and e: "exec (mm1, gs[j := g1]) sch = Some (mm', gs')"
    have inv1: "creator_inv k a ctl ln c mres pa mm1 (gs[j := g1])"
      by (rule creator_inv_step [OF Cons.prems(1) j s])
    have J1: "gs[j := g1] ! i = Mounting (Select ctx a)
         \<or> (\<exists>r. gs[j := g1] ! i = Mounting (Returned r)
              \<and> (r = (case mres of Some e \<Rightarrow> Inl (MountFailed ctl ln pa e) | None \<Rightarrow> Inr pa)
                   \<and> waitCh (heap mm1 ! a) = Closed
                 \<or> (\<exists>e. ctx = Some e \<and> r = Inl e)))"
      by (rule joiner_step [OF Cons.prems(1,2,3,4) j s])
    show ?thesis
      using Cons.IH [OF inv1 _ Cons.prems(3) J1 e] Cons.prems(2) by simp
  qed
qed

text \<open>The creator alone runs to its return: neither the untracking nor the close panics.\<close>

lemma creator_runs:
  assumes "creators_ok mm gs" "k < length gs" "gs ! k = Mounting (Call ctl ln a c mres)"
  shows "\<exists>mm' gs'. exec (mm, gs) [(k, 0), (k, 0), (k, 0), (k, 0)] = Some (mm', gs')"
proof -
  note inv = creator_inv_start [OF assms]
  from creator_inv_facts [OF inv] have w: "wf_state mm" and al: "a < length (heap mm)"
    by simp_all
  have i: "index (heap mm ! a) < length (mounts mm)"
    by (rule wf_index [OF w al])
  from inv assms(3) have ch: "waitCh (heap mm ! a) = Open"
    unfolding creator_inv_def Let_def by auto
  show ?thesis
    using assms(2,3) al i ch
    by (cases mres) (simp_all add: Let_def untrackMount_def)
qed

subsection \<open>Failure of the mounter\<close>

text \<open>
  C3: in every execution that starts with no call in flight, let goroutine \<open>k\<close> be in
  \<^verbatim>\<open>mounter.mount\<close> for the entry at \<open>a\<close> that it created (the only way into that place is
  \<^verbatim>\<open>trackMount\<close> returning a new entry), and let the mounter fail with \<open>e\<close>. Then in every
  state of every continuation, whatever the other goroutines do in between:
  \<^item> if the entry has an error recorded or its channel is closed, it is no longer in the
    mount table: the removal comes before the error is recorded and the channel closed;
  \<^item> once it is out of the table, \<^verbatim>\<open>trackMount\<close> finds it for no caller, whatever the key;
  \<^item> once the channel is closed, the entry holds the creator's error, the creator has
    returned that error, and a caller waiting in the \<^verbatim>\<open>select\<close> receives it (or, if its own
    context is done, possibly that error instead);
  \<^item> while the channel is open such a caller waits (or returns the error of its context);
  \<^item> the creator's own four steps reach the close without a panic.
\<close>

theorem mount_failure_untracks_then_publishes:
  fixes e :: error
  assumes "wf_state mm0" "\<forall>i<length gs0. creating (gs0 ! i) = None"
    and "exec (mm0, gs0) sch0 = Some (mm, gs)"
    and "k < length gs" "gs ! k = Mounting (Call ctl ln a c (Some e))"
    and "exec (mm, gs) sch = Some (mm', gs')"
  defines "err \<equiv> MountFailed ctl ln (path (heap mm ! a)) e"
  shows "(waitErr (heap mm' ! a) \<noteq> None \<or> waitCh (heap mm' ! a) = Closed \<longrightarrow>
            Some a \<notin> set (mounts mm'))
       \<and> (Some a \<notin> set (mounts mm') \<longrightarrow>
            (\<forall>ctl' ln' p' c' mm'' b.
               trackMount mm' ctl' ln' p' c' = (mm'', Inr (b, True)) \<longrightarrow> b \<noteq> a))
       \<and> (waitCh (heap mm' ! a) = Closed \<longrightarrow>
            waitErr (heap mm' ! a) = Some err \<and> gs' ! k = Mounting (Returned (Inl err))
            \<and> (\<forall>ctx. go_step mm' (Mounting (Select ctx a))
                  = (case ctx of None \<Rightarrow> []
                     | Some e' \<Rightarrow> [Inr (mm', Mounting (Returned (Inl e')))])
                    @ [Inr (mm', Mounting (Returned (Inl err)))]))
       \<and> (waitCh (heap mm' ! a) = Open \<longrightarrow>
            (\<forall>ctx. go_step mm' (Mounting (Select ctx a))
                  = (case ctx of None \<Rightarrow> []
                     | Some e' \<Rightarrow> [Inr (mm', Mounting (Returned (Inl e')))])))
       \<and> (\<exists>mm1 gs1. exec (mm, gs) [(k, 0), (k, 0), (k, 0), (k, 0)] = Some (mm1, gs1)
            \<and> waitCh (heap mm1 ! a) = Closed)"
proof -
  have ok: "creators_ok mm gs"
    by (rule creators_ok_exec [OF creators_ok_initial [OF assms(1,2)] assms(3)])
  note start = creator_inv_start [OF ok assms(4,5)]
  have inv: "creator_inv k a ctl ln c (Some e) (path (heap mm ! a)) mm' gs'"
    by (rule creator_inv_exec [OF start assms(6)])
  have A: "Some a \<notin> set (mounts mm')"
    if "waitErr (heap mm' ! a) \<noteq> None \<or> waitCh (heap mm' ! a) = Closed"
    using that creator_inv_recorded [OF inv] creator_inv_Closed(4) [OF inv] by auto
  have B: "b \<noteq> a" if "trackMount mm' ctl' ln' p' c' = (mm'', Inr (b, True))"
    and "Some a \<notin> set (mounts mm')" for ctl' ln' p' c' mm'' b
    using trackMount_found_live [OF that(1)] that(2) by auto
  have C: "waitErr (heap mm' ! a) = Some err \<and> gs' ! k = Mounting (Returned (Inl err))
      \<and> (\<forall>ctx. go_step mm' (Mounting (Select ctx a))
            = (case ctx of None \<Rightarrow> [] | Some e' \<Rightarrow> [Inr (mm', Mounting (Returned (Inl e')))])
              @ [Inr (mm', Mounting (Returned (Inl err)))])"
    if c: "waitCh (heap mm' ! a) = Closed"
    using creator_inv_Closed(1,2) [OF inv c] select_Closed [OF c]
    by (simp add: err_def)
  have D: "\<forall>ctx. go_step mm' (Mounting (Select ctx a))
      = (case ctx of None \<Rightarrow> [] | Some e' \<Rightarrow> [Inr (mm', Mounting (Returned (Inl e')))])"
    if c: "waitCh (heap mm' ! a) = Open"
    using select_Open [OF c] by simp
  from creator_runs [OF ok assms(4,5)] obtain mm1 gs1
    where run: "exec (mm, gs) [(k, 0), (k, 0), (k, 0), (k, 0)] = Some (mm1, gs1)"
    by blast
  have inv1: "creator_inv k a ctl ln c (Some e) (path (heap mm ! a)) mm1 gs1"
    by (rule creator_inv_exec [OF start run])
  from run assms(4,5) have "\<exists>r. gs1 ! k = Mounting (Returned r)"
    by (auto simp: Let_def split: if_splits sum.splits chan.splits prod.splits)
  then have E: "waitCh (heap mm1 ! a) = Closed"
    using creator_inv_Returned [OF inv1] by blast
  from A B C D run E show ?thesis
    by blast
qed

theorem mount_failure_untracks_then_publishes_witness:
  "\<exists>mm gs mm' gs'.
     wf_state ex_new
     \<and> exec (ex_new, [Mounting (Start None 0 2 ''/b'' (Some 0) (Some (External ''EIO''))),
                      Mounting (Start None 0 2 ''/b'' (Some 1) None)])
         [(0, 0), (0, 0), (1, 0), (1, 0)] = Some (mm, gs)
     \<and> gs ! 0 = Mounting (Call 0 2 0 0 (Some (External ''EIO'')))
     \<and> gs ! 1 = Mounting (Select None 0)
     \<and> mounts mm = [Some 0] \<and> refCount (heap mm ! 0) = 2
     \<and> exec (mm, gs) [(0, 0), (0, 0), (0, 0), (0, 0)] = Some (mm', gs')
     \<and> waitCh (heap mm' ! 0) = Closed
     \<and> mounts mm' = [None]
     \<and> waitErr (heap mm' ! 0) = Some (MountFailed 0 2 ''/b'' (External ''EIO''))
     \<and> gs' ! 0 = Mounting (Returned (Inl (MountFailed 0 2 ''/b'' (External ''EIO''))))
     \<and> go_step mm' (gs' ! 1)
         = [Inr (mm', Mounting (Returned (Inl (MountFailed 0 2 ''/b'' (External ''EIO'')))))]
     \<and> Some 0 \<notin> set (mounts mm')
     \<and> snd (trackMount mm' 0 2 ''/b'' 1) = Inr (1, False)"
proof -
  let ?gs0 = "[Mounting (Start None 0 2 ''/b'' (Some 0) (Some (External ''EIO''))),
      Mounting (Start None 0 2 ''/b'' (Some 1) None)]"
  have w: "wf_state ex_new"
    by (simp add: wf_state_def ex_defs)
  have init: "\<forall>i<length ?gs0. creating (?gs0 ! i) = None"
    by (simp add: All_less_Suc)
  obtain mm gs where e0: "exec (ex_new, ?gs0) [(0, 0), (0, 0), (1, 0), (1, 0)] = Some (mm, gs)"
    and k: "0 < length gs" and g0: "gs ! 0 = Mounting (Call 0 2 0 0 (Some (External ''EIO'')))"
    and g1: "gs ! 1 = Mounting (Select None 0)"
    and t: "mounts mm = [Some 0]" and r: "refCount (heap mm ! 0) = 2"
    and p: "path (heap mm ! 0) = ''/b''"
    and e1: "\<exists>mm' gs'. exec (mm, gs) [(0, 0), (0, 0), (0, 0), (0, 0)] = Some (mm', gs')
        \<and> waitCh (heap mm' ! 0) = Closed \<and> mounts mm' = [None]
        \<and> gs' ! 1 = Mounting (Select None 0)
        \<and> snd (trackMount mm' 0 2 ''/b'' 1) = Inr (1, False)"
    by (simp add: ex_defs mm_defs)
  from e1 obtain mm' gs' where e1: "exec (mm, gs) [(0, 0), (0, 0), (0, 0), (0, 0)] = Some (mm', gs')"
    and c: "waitCh (heap mm' ! 0) = Closed" and t': "mounts mm' = [None]"
    and g1': "gs' ! 1 = Mounting (Select None 0)"
    and new: "snd (trackMount mm' 0 2 ''/b'' 1) = Inr (1, False)"
    by blast
  note T = mount_failure_untracks_then_publishes [OF w init e0 k g0 e1, unfolded p]
  from T c have gone: "Some 0 \<notin> set (mounts mm')"
    by blast
  from T c have pub: "waitErr (heap mm' ! 0) = Some (MountFailed 0 2 ''/b'' (External ''EIO''))"
    "gs' ! 0 = Mounting (Returned (Inl (MountFailed 0 2 ''/b'' (External ''EIO''))))"
    "\<forall>ctx. go_step mm' (Mounting (Select ctx 0))
        = (case ctx of None \<Rightarrow> [] | Some e' \<Rightarrow> [Inr (mm', Mounting (Returned (Inl e')))])
          @ [Inr (mm', Mounting (Returned (Inl (MountFailed 0 2 ''/b'' (External ''EIO'')))))]"
    by blast+
  from pub(3) g1' have sel: "go_step mm' (gs' ! 1)
      = [Inr (mm', Mounting (Returned (Inl (MountFailed 0 2 ''/b'' (External ''EIO'')))))]"
    by (simp del: go_step.simps)
  from w e0 g0 g1 t r e1 c t' pub(1,2) sel gone new show ?thesis
    by blast
qed

subsection \<open>A later caller with the same key\<close>

text \<open>
  C1, as amended. In every execution that starts with no call in flight, let goroutine \<open>k\<close>
  be in \<^verbatim>\<open>mounter.mount\<close> for the entry at \<open>a\<close> that it created (the pioneer), and let a
  later caller \<open>i\<close>, having sorted its options, reach \<^verbatim>\<open>trackMount\<close> in a state where the
  entry is in the table with the caller's controller, lun and configuration (compared as
  \<^verbatim>\<open>reflect.DeepEqual\<close> does) and no lower-numbered slot holds an entry with that key or
  with the caller's non-empty path. Then
  \<^item> the caller's step increments the reference count of the entry and changes nothing
    else (no slot, no other struct, no call of the mounter), and takes the caller to the
    \<^verbatim>\<open>select\<close>; run without interruption, \<^verbatim>\<open>mount\<close> from there gives what the \<^verbatim>\<open>select\<close>
    has ready;
  \<^item> in every continuation the caller is in the \<^verbatim>\<open>select\<close> or has returned, so it never
    calls the mounter; what it has returned is what the pioneer has returned (the
    pioneer's error, or on success the path of the entry), or else the error of its own
    done context;
  \<^item> while the channel of the entry is open the caller waits (or returns the error of its
    context), and once it is closed the pioneer has returned and the \<^verbatim>\<open>select\<close> delivers
    the pioneer's outcome.
\<close>

theorem mount_existing_entry:
  fixes mres :: "error option" and c :: addr
  assumes "wf_state mm0" "\<forall>i<length gs0. creating (gs0 ! i) = None"
    and "exec (mm0, gs0) sch0 = Some (mm, gs)"
    and "k < length gs" "gs ! k = Mounting (Call ctlk lnk a ck mres)"
    and "exec (mm, gs) sch1 = Some (mm1, gs1)"
    and "i < length gs1" "gs1 ! i = Mounting (Track ctx ctl ln p c mresi)"
    and "j < length (mounts mm1)" "mounts mm1 ! j = Some a"
    and "sameKey mm1 ctl ln c (heap mm1 ! a)"
    and "\<forall>l<j. \<forall>b. mounts mm1 ! l = Some b \<longrightarrow>
           \<not> sameKey mm1 ctl ln c (heap mm1 ! b) \<and> \<not> (p \<noteq> [] \<and> p = path (heap mm1 ! b))"
  defines "mm2 \<equiv> mm1\<lparr>heap := (heap mm1)
                      [a := (heap mm1 ! a)\<lparr>refCount := refCount (heap mm1 ! a) + 1\<rparr>]\<rparr>"
  assumes "exec (mm2, gs1[i := Mounting (Select ctx a)]) sch2 = Some (mm3, gs3)"
  defines "R \<equiv> (case mres of
                   Some e \<Rightarrow> Inl (MountFailed ctlk lnk (path (heap mm ! a)) e)
                 | None \<Rightarrow> Inr (path (heap mm ! a)))"
  shows "go_step mm1 (gs1 ! i) = [Inr (mm2, Mounting (Select ctx a))]
       \<and> mount_from mm1 (Track ctx ctl ln p c mresi)
           = Inr (mm2, mount_select ctx (heap mm2 ! a))
       \<and> (gs3 ! i = Mounting (Select ctx a)
          \<or> (\<exists>r. gs3 ! i = Mounting (Returned r)
               \<and> (r = R \<and> gs3 ! k = Mounting (Returned R)
                  \<or> (\<exists>e. ctx = Some e \<and> r = Inl e))))
       \<and> (waitCh (heap mm3 ! a) = Open \<longrightarrow>
            go_step mm3 (Mounting (Select ctx a))
              = (case ctx of None \<Rightarrow> []
                 | Some e \<Rightarrow> [Inr (mm3, Mounting (Returned (Inl e)))]))
       \<and> (waitCh (heap mm3 ! a) = Closed \<longrightarrow>
            gs3 ! k = Mounting (Returned R)
            \<and> go_step mm3 (Mounting (Select ctx a))
                = (case ctx of None \<Rightarrow> []
                   | Some e \<Rightarrow> [Inr (mm3, Mounting (Returned (Inl e)))])
                  @ [Inr (mm3, Mounting (Returned R))])
       \<and> path (heap mm3 ! a) = path (heap mm ! a)"
proof -
  let ?pa = "path (heap mm ! a)"
  have ok: "creators_ok mm gs"
    by (rule creators_ok_exec [OF creators_ok_initial [OF assms(1,2)] assms(3)])
  note start = creator_inv_start [OF ok assms(4,5)]
  have inv1: "creator_inv k a ctlk lnk ck mres ?pa mm1 gs1"
    by (rule creator_inv_exec [OF start assms(6)])
  have t: "trackMount mm1 ctl ln p c = (mm2, Inr (a, True))"
    unfolding mm2_def by (rule trackMount_Existed [OF assms(9,10,11,12)])
  have step: "go_step mm1 (gs1 ! i) = [Inr (mm2, Mounting (Select ctx a))]"
    using t assms(8) by simp
  have run: "mount_from mm1 (Track ctx ctl ln p c mresi)
      = Inr (mm2, mount_select ctx (heap mm2 ! a))"
    unfolding mount_from_Track using t by simp
  from creator_inv_facts(5) [OF inv1] assms(8) have ik: "i \<noteq> k"
    by auto
  have inv2: "creator_inv k a ctlk lnk ck mres ?pa mm2 (gs1[i := Mounting (Select ctx a)])"
    by (rule creator_inv_step [OF inv1 assms(7)]) (simp add: step del: go_step.simps)
  have inv3: "creator_inv k a ctlk lnk ck mres ?pa mm3 gs3"
    by (rule creator_inv_exec [OF inv2 assms(14)])
  have ret: "gs3 ! k = Mounting (Returned R)" if "waitCh (heap mm3 ! a) = Closed"
    using creator_inv_Closed(1) [OF inv3 that] by (simp add: R_def)
  have J: "gs3 ! i = Mounting (Select ctx a)
      \<or> (\<exists>r. gs3 ! i = Mounting (Returned r)
           \<and> (r = R \<and> waitCh (heap mm3 ! a) = Closed \<or> (\<exists>e. ctx = Some e \<and> r = Inl e)))"
    unfolding R_def
    by (rule joiner_exec [OF inv2 _ ik _ assms(14)]) (simp_all add: assms(7))
  have A: "gs3 ! i = Mounting (Select ctx a)
      \<or> (\<exists>r. gs3 ! i = Mounting (Returned r)
           \<and> (r = R \<and> gs3 ! k = Mounting (Returned R) \<or> (\<exists>e. ctx = Some e \<and> r = Inl e)))"
    using J ret by blast
  have B: "go_step mm3 (Mounting (Select ctx a))
      = (case ctx of None \<Rightarrow> [] | Some e \<Rightarrow> [Inr (mm3, Mounting (Returned (Inl e)))])"
    if "waitCh (heap mm3 ! a) = Open"
    by (rule select_Open [OF that])
  have C: "go_step mm3 (Mounting (Select ctx a))
      = (case ctx of None \<Rightarrow> [] | Some e \<Rightarrow> [Inr (mm3, Mounting (Returned (Inl e)))])
        @ [Inr (mm3, Mounting (Returned R))]"
    if c: "waitCh (heap mm3 ! a) = Closed"
    using select_Closed [OF c, of ctx] creator_inv_Closed(2,3) [OF inv3 c]
    by (cases mres) (simp_all add: R_def del: go_step.simps)
  have D: "path (heap mm3 ! a) = ?pa"
    by (rule creator_inv_facts(4) [OF inv3])
  from step run A B C ret D show ?thesis
    by blast
qed

theorem mount_existing_entry_witness:
  "\<exists>mm gs mm1 gs1 mm3 gs3.
     wf_state ex_two
     \<and> exec (ex_two, [Mounting (Start None 0 3 ''/c'' (Some 0) None),
                      Mounting (Start None 0 3 ''/c'' (Some 2) None)])
         [(0, 0), (0, 0)] = Some (mm, gs)
     \<and> gs ! 0 = Mounting (Call 0 3 2 0 None)
     \<and> waitCh (heap mm ! 2) = Open
     \<and> elems mm \<lparr>array = 2, off = 0, len = 2\<rparr> = [''ro'', ''noatime'']
     \<and> exec (mm, gs) [(1, 0)] = Some (mm1, gs1)
     \<and> gs1 ! 1 = Mounting (Track None 0 3 ''/c'' 2 None)
     \<and> mounts mm1 = [Some 0, Some 1, Some 2]
     \<and> sameKey mm1 0 3 2 (heap mm1 ! 2)
     \<and> refCount (heap mm1 ! 2) = 1
     \<and> go_step mm1 (gs1 ! 1)
         = [Inr (mm1\<lparr>heap := (heap mm1)[2 := (heap mm1 ! 2)\<lparr>refCount := 2\<rparr>]\<rparr>,
                 Mounting (Select None 2))]
     \<and> go_step (mm1\<lparr>heap := (heap mm1)[2 := (heap mm1 ! 2)\<lparr>refCount := 2\<rparr>]\<rparr>)
         (Mounting (Select None 2)) = []
     \<and> exec (mm1\<lparr>heap := (heap mm1)[2 := (heap mm1 ! 2)\<lparr>refCount := 2\<rparr>]\<rparr>,
              gs1[1 := Mounting (Select None 2)])
         [(0, 0), (0, 0), (0, 0), (0, 0), (1, 0)] = Some (mm3, gs3)
     \<and> gs3 = [Mounting (Returned (Inr ''/c'')), Mounting (Returned (Inr ''/c''))]
     \<and> mounter mm3 = mounter ex_two @ [MounterMount 0 3 ''/c'' 0]
     \<and> mounts mm3 = [Some 0, Some 1, Some 2]
     \<and> refCount (heap mm3 ! 2) = 2
     \<and> (\<exists>mm gs mm1 gs1 mm3 gs3.
           exec (ex_new, [Mounting (Start None 0 2 ''/b'' (Some 0) (Some (External ''EIO''))),
                          Mounting (Start None 0 2 ''/b'' (Some 1) None)])
             [(0, 0), (0, 0)] = Some (mm, gs)
           \<and> gs ! 0 = Mounting (Call 0 2 0 0 (Some (External ''EIO'')))
           \<and> exec (mm, gs) [(1, 0)] = Some (mm1, gs1)
           \<and> go_step mm1 (gs1 ! 1)
               = [Inr (mm1\<lparr>heap := (heap mm1)[0 := (heap mm1 ! 0)\<lparr>refCount := 2\<rparr>]\<rparr>,
                       Mounting (Select None 0))]
           \<and> exec (mm1\<lparr>heap := (heap mm1)[0 := (heap mm1 ! 0)\<lparr>refCount := 2\<rparr>]\<rparr>,
                    gs1[1 := Mounting (Select None 0)])
               [(0, 0), (0, 0), (0, 0), (0, 0), (1, 0)] = Some (mm3, gs3)
           \<and> gs3 ! 0 = Mounting (Returned (Inl (MountFailed 0 2 ''/b'' (External ''EIO''))))
           \<and> gs3 ! 1 = Mounting (Returned (Inl (MountFailed 0 2 ''/b'' (External ''EIO''))))
           \<and> mounter mm3 = [MounterMount 0 2 ''/b'' 0]
           \<and> mounts mm3 = [None])"
proof -
  let ?gs0 = "[Mounting (Start None 0 3 ''/c'' (Some 0) None),
      Mounting (Start None 0 3 ''/c'' (Some 2) None)]"
  have w: "wf_state ex_two"
    by (simp add: wf_state_def ex_defs All_less_Suc)
  have init: "\<forall>i<length ?gs0. creating (?gs0 ! i) = None"
    by (simp add: All_less_Suc)
  obtain mm gs where e0: "exec (ex_two, ?gs0) [(0, 0), (0, 0)] = Some (mm, gs)"
    and k: "0 < length gs" and g0: "gs ! 0 = Mounting (Call 0 3 2 0 None)"
    and ch: "waitCh (heap mm ! 2) = Open" and p: "path (heap mm ! 2) = ''/c''"
    and un: "elems mm \<lparr>array = 2, off = 0, len = 2\<rparr> = [''ro'', ''noatime'']"
    and e1: "\<exists>mm1 gs1. exec (mm, gs) [(1, 0)] = Some (mm1, gs1)
        \<and> 1 < length gs1 \<and> gs1 ! 1 = Mounting (Track None 0 3 ''/c'' 2 None)
        \<and> mounts mm1 = [Some 0, Some 1, Some 2]
        \<and> sameKey mm1 0 3 2 (heap mm1 ! 2)
        \<and> refCount (heap mm1 ! 2) = 1
        \<and> go_step (mm1\<lparr>heap := (heap mm1)[2 := (heap mm1 ! 2)\<lparr>refCount := 2\<rparr>]\<rparr>)
            (Mounting (Select None 2)) = []
        \<and> (\<forall>l<Suc (Suc 0). \<forall>b. mounts mm1 ! l = Some b \<longrightarrow>
              \<not> sameKey mm1 0 3 2 (heap mm1 ! b)
              \<and> \<not> (''/c'' \<noteq> [] \<and> ''/c'' = path (heap mm1 ! b)))
        \<and> (\<exists>mm3 gs3.
              exec (mm1\<lparr>heap := (heap mm1)[2 := (heap mm1 ! 2)\<lparr>refCount := 2\<rparr>]\<rparr>,
                    gs1[1 := Mounting (Select None 2)])
                [(0, 0), (0, 0), (0, 0), (0, 0), (1, 0)] = Some (mm3, gs3)
              \<and> gs3 = [Mounting (Returned (Inr ''/c'')), Mounting (Returned (Inr ''/c''))]
              \<and> mounter mm3 = mounter ex_two @ [MounterMount 0 3 ''/c'' 0]
              \<and> mounts mm3 = [Some 0, Some 1, Some 2]
              \<and> refCount (heap mm3 ! 2) = 2)"
    by (simp add: ex_defs mm_defs All_less_Suc)
  from e1 obtain mm1 gs1 where e1: "exec (mm, gs) [(1, 0)] = Some (mm1, gs1)"
    and i: "1 < length gs1" and g1: "gs1 ! 1 = Mounting (Track None 0 3 ''/c'' 2 None)"
    and t: "mounts mm1 = [Some 0, Some 1, Some 2]"
    and key: "sameKey mm1 0 3 2 (heap mm1 ! 2)"
    and r: "refCount (heap mm1 ! 2) = 1"
    and wait: "go_step (mm1\<lparr>heap := (heap mm1)[2 := (heap mm1 ! 2)\<lparr>refCount := 2\<rparr>]\<rparr>)
            (Mounting (Select None 2)) = []"
    and first0: "\<forall>l<Suc (Suc 0). \<forall>b. mounts mm1 ! l = Some b \<longrightarrow>
              \<not> sameKey mm1 0 3 2 (heap mm1 ! b)
              \<and> \<not> (''/c'' \<noteq> [] \<and> ''/c'' = path (heap mm1 ! b))"
    and e2: "\<exists>mm3 gs3.
              exec (mm1\<lparr>heap := (heap mm1)[2 := (heap mm1 ! 2)\<lparr>refCount := 2\<rparr>]\<rparr>,
                    gs1[1 := Mounting (Select None 2)])
                [(0, 0), (0, 0), (0, 0), (0, 0), (1, 0)] = Some (mm3, gs3)
              \<and> gs3 = [Mounting (Returned (Inr ''/c'')), Mounting (Returned (Inr ''/c''))]
              \<and> mounter mm3 = mounter ex_two @ [MounterMount 0 3 ''/c'' 0]
              \<and> mounts mm3 = [Some 0, Some 1, Some 2]
              \<and> refCount (heap mm3 ! 2) = 2"
    by blast
  from first0 have first: "\<forall>l<2. \<forall>b. mounts mm1 ! l = Some b \<longrightarrow>
              \<not> sameKey mm1 0 3 2 (heap mm1 ! b)
              \<and> \<not> (''/c'' \<noteq> [] \<and> ''/c'' = path (heap mm1 ! b))"
    by (simp only: numeral_2_eq_2)
  let ?mm2 = "mm1\<lparr>heap := (heap mm1)[2 := (heap mm1 ! 2)\<lparr>refCount := 2\<rparr>]\<rparr>"
  from e2 obtain mm3 gs3 where e2: "exec (?mm2, gs1[1 := Mounting (Select None 2)])
        [(0, 0), (0, 0), (0, 0), (0, 0), (1, 0)] = Some (mm3, gs3)"
    and g3: "gs3 = [Mounting (Returned (Inr ''/c'')), Mounting (Returned (Inr ''/c''))]"
    and m3: "mounter mm3 = mounter ex_two @ [MounterMount 0 3 ''/c'' 0]"
    and t3: "mounts mm3 = [Some 0, Some 1, Some 2]"
    and r3: "refCount (heap mm3 ! 2) = 2"
    by blast
  have e2': "exec (mm1\<lparr>heap := (heap mm1)
        [2 := (heap mm1 ! 2)\<lparr>refCount := refCount (heap mm1 ! 2) + 1\<rparr>]\<rparr>,
        gs1[1 := Mounting (Select None 2)])
      [(0, 0), (0, 0), (0, 0), (0, 0), (1, 0)] = Some (mm3, gs3)"
    using e2 r by simp
  have j: "2 < length (mounts mm1)" "mounts mm1 ! 2 = Some 2"
    using t by simp_all
  note T = mount_existing_entry [OF w init e0 k g0 e1 i g1 j key first e2', unfolded r]
  from T have step: "go_step mm1 (gs1 ! 1)
      = [Inr (mm1\<lparr>heap := (heap mm1)[2 := (heap mm1 ! 2)\<lparr>refCount := 1 + 1\<rparr>]\<rparr>,
              Mounting (Select None 2))]"
    by blast
  then have step': "go_step mm1 (gs1 ! 1) = [Inr (?mm2, Mounting (Select None 2))]"
    by simp
  have first_part: "\<exists>mm gs mm1 gs1 mm3 gs3.
     wf_state ex_two
     \<and> exec (ex_two, ?gs0) [(0, 0), (0, 0)] = Some (mm, gs)
     \<and> gs ! 0 = Mounting (Call 0 3 2 0 None)
     \<and> waitCh (heap mm ! 2) = Open
     \<and> elems mm \<lparr>array = 2, off = 0, len = 2\<rparr> = [''ro'', ''noatime'']
     \<and> exec (mm, gs) [(1, 0)] = Some (mm1, gs1)
     \<and> gs1 ! 1 = Mounting (Track None 0 3 ''/c'' 2 None)
     \<and> mounts mm1 = [Some 0, Some 1, Some 2]
     \<and> sameKey mm1 0 3 2 (heap mm1 ! 2)
     \<and> refCount (heap mm1 ! 2) = 1
     \<and> go_step mm1 (gs1 ! 1)
         = [Inr (mm1\<lparr>heap := (heap mm1)[2 := (heap mm1 ! 2)\<lparr>refCount := 2\<rparr>]\<rparr>,
                 Mounting (Select None 2))]
     \<and> go_step (mm1\<lparr>heap := (heap mm1)[2 := (heap mm1 ! 2)\<lparr>refCount := 2\<rparr>]\<rparr>)
         (Mounting (Select None 2)) = []
     \<and> exec (mm1\<lparr>heap := (heap mm1)[2 := (heap mm1 ! 2)\<lparr>refCount := 2\<rparr>]\<rparr>,
              gs1[1 := Mounting (Select None 2)])
         [(0, 0), (0, 0), (0, 0), (0, 0), (1, 0)] = Some (mm3, gs3)
     \<and> gs3 = [Mounting (Returned (Inr ''/c'')), Mounting (Returned (Inr ''/c''))]
     \<and> mounter mm3 = mounter ex_two @ [MounterMount 0 3 ''/c'' 0]
     \<and> mounts mm3 = [Some 0, Some 1, Some 2]
     \<and> refCount (heap mm3 ! 2) = 2"
    using w e0 g0 ch un e1 g1 t key r step' wait e2 g3 m3 t3 r3 by blast
  let ?hs0 = "[Mounting (Start None 0 2 ''/b'' (Some 0) (Some (External ''EIO''))),
      Mounting (Start None 0 2 ''/b'' (Some 1) None)]"
  let ?err = "MountFailed 0 2 ''/b'' (External ''EIO'')"
  have w0: "wf_state ex_new"
    by (simp add: wf_state_def ex_defs)
  have init0: "\<forall>i<length ?hs0. creating (?hs0 ! i) = None"
    by (simp add: All_less_Suc)
  obtain nn hs where f0: "exec (ex_new, ?hs0) [(0, 0), (0, 0)] = Some (nn, hs)"
    and fk: "0 < length hs" and h0: "hs ! 0 = Mounting (Call 0 2 0 0 (Some (External ''EIO'')))"
    and fp: "path (heap nn ! 0) = ''/b''"
    and f1: "\<exists>nn1 hs1. exec (nn, hs) [(1, 0)] = Some (nn1, hs1)
        \<and> 1 < length hs1 \<and> hs1 ! 1 = Mounting (Track None 0 2 ''/b'' 1 None)
        \<and> 0 < length (mounts nn1) \<and> mounts nn1 ! 0 = Some 0
        \<and> sameKey nn1 0 2 1 (heap nn1 ! 0)
        \<and> refCount (heap nn1 ! 0) = 1
        \<and> (\<exists>nn3 hs3.
              exec (nn1\<lparr>heap := (heap nn1)[0 := (heap nn1 ! 0)\<lparr>refCount := 2\<rparr>]\<rparr>,
                    hs1[1 := Mounting (Select None 0)])
                [(0, 0), (0, 0), (0, 0), (0, 0), (1, 0)] = Some (nn3, hs3)
              \<and> (\<exists>r. hs3 ! 1 = Mounting (Returned r))
              \<and> mounter nn3 = [MounterMount 0 2 ''/b'' 0]
              \<and> mounts nn3 = [None])"
    by (simp add: ex_defs mm_defs)
  from f1 obtain nn1 hs1 where f1: "exec (nn, hs) [(1, 0)] = Some (nn1, hs1)"
    and fi: "1 < length hs1" and h1: "hs1 ! 1 = Mounting (Track None 0 2 ''/b'' 1 None)"
    and fj: "0 < length (mounts nn1)" "mounts nn1 ! 0 = Some 0"
    and fkey: "sameKey nn1 0 2 1 (heap nn1 ! 0)"
    and fr: "refCount (heap nn1 ! 0) = 1"
    and f2: "\<exists>nn3 hs3.
              exec (nn1\<lparr>heap := (heap nn1)[0 := (heap nn1 ! 0)\<lparr>refCount := 2\<rparr>]\<rparr>,
                    hs1[1 := Mounting (Select None 0)])
                [(0, 0), (0, 0), (0, 0), (0, 0), (1, 0)] = Some (nn3, hs3)
              \<and> (\<exists>r. hs3 ! 1 = Mounting (Returned r))
              \<and> mounter nn3 = [MounterMount 0 2 ''/b'' 0]
              \<and> mounts nn3 = [None]"
    by blast
  let ?nn2 = "nn1\<lparr>heap := (heap nn1)[0 := (heap nn1 ! 0)\<lparr>refCount := 2\<rparr>]\<rparr>"
  from f2 obtain nn3 hs3 where f2: "exec (?nn2, hs1[1 := Mounting (Select None 0)])
        [(0, 0), (0, 0), (0, 0), (0, 0), (1, 0)] = Some (nn3, hs3)"
    and h3: "\<exists>r. hs3 ! 1 = Mounting (Returned r)"
    and fm3: "mounter nn3 = [MounterMount 0 2 ''/b'' 0]"
    and ft3: "mounts nn3 = [None]"
    by blast
  have f2': "exec (nn1\<lparr>heap := (heap nn1)
        [0 := (heap nn1 ! 0)\<lparr>refCount := refCount (heap nn1 ! 0) + 1\<rparr>]\<rparr>,
        hs1[1 := Mounting (Select None 0)])
      [(0, 0), (0, 0), (0, 0), (0, 0), (1, 0)] = Some (nn3, hs3)"
    using f2 fr by simp
  have ffirst: "\<forall>l<0. \<forall>b. mounts nn1 ! l = Some b \<longrightarrow>
      \<not> sameKey nn1 0 2 1 (heap nn1 ! b) \<and> \<not> (''/b'' \<noteq> [] \<and> ''/b'' = path (heap nn1 ! b))"
    by simp
  note U = mount_existing_entry [OF w0 init0 f0 fk h0 f1 fi h1 fj fkey ffirst f2',
      unfolded fr fp]
  from U have fstep: "go_step nn1 (hs1 ! 1)
      = [Inr (nn1\<lparr>heap := (heap nn1)[0 := (heap nn1 ! 0)\<lparr>refCount := 1 + 1\<rparr>]\<rparr>,
              Mounting (Select None 0))]"
    by blast
  then have fstep': "go_step nn1 (hs1 ! 1) = [Inr (?nn2, Mounting (Select None 0))]"
    by simp
  from U h3 have got: "hs3 ! 1 = Mounting (Returned (Inl ?err))"
    "hs3 ! 0 = Mounting (Returned (Inl ?err))"
    by auto
  have second_part: "\<exists>mm gs mm1 gs1 mm3 gs3.
       exec (ex_new, ?hs0) [(0, 0), (0, 0)] = Some (mm, gs)
       \<and> gs ! 0 = Mounting (Call 0 2 0 0 (Some (External ''EIO'')))
       \<and> exec (mm, gs) [(1, 0)] = Some (mm1, gs1)
       \<and> go_step mm1 (gs1 ! 1)
           = [Inr (mm1\<lparr>heap := (heap mm1)[0 := (heap mm1 ! 0)\<lparr>refCount := 2\<rparr>]\<rparr>,
                   Mounting (Select None 0))]
       \<and> exec (mm1\<lparr>heap := (heap mm1)[0 := (heap mm1 ! 0)\<lparr>refCount := 2\<rparr>]\<rparr>,
                gs1[1 := Mounting (Select None 0)])
           [(0, 0), (0, 0), (0, 0), (0, 0), (1, 0)] = Some (mm3, gs3)
       \<and> gs3 ! 0 = Mounting (Returned (Inl ?err))
       \<and> gs3 ! 1 = Mounting (Returned (Inl ?err))
       \<and> mounter mm3 = [MounterMount 0 2 ''/b'' 0]
       \<and> mounts mm3 = [None]"
    using f0 h0 f1 fstep' f2 got fm3 ft3 by blast
  from first_part second_part show ?thesis
    by blast
qed

text \<open>
  The claim as stated fails where a lower slot holds another key at the caller's path. In
  \<open>ex_two\<close> the entry of lun 2 in slot 1 has the caller's key (its options equal the
  caller's once those are sorted), but slot 0 holds lun 1 at \<^verbatim>\<open>/a\<close>: the call
  \<^verbatim>\<open>mount(0, 2, "/a", c2)\<close> returns the path-conflict error, no reference count changes, and
  the caller does not receive the outcome of the call that created the entry.
\<close>

theorem mount_existing_entry_counterexample:
  "mounts ex_two ! 1 = Some 1
   \<and> sameKey (sortStrings ex_two (options (configs ex_two ! 2))) 0 2 2 (heap ex_two ! 1)
   \<and> waitCh (heap ex_two ! 1) = Closed \<and> waitErr (heap ex_two ! 1) = None
   \<and> path (heap ex_two ! 1) = ''/b''
   \<and> map_sum id (\<lambda>(mm', rs). (heap mm', mounts mm', mounter mm', rs))
       (mount ex_two None 0 2 ''/a'' (Some 2) None)
     = Inr (heap ex_two, mounts ex_two, mounter ex_two, [Inl (CannotMountOver ''/a'')])"
  by (simp add: ex_defs mm_defs)

subsection \<open>The sort works on the caller's backing array\<close>

text \<open>
  The entry keeps the pointer to the caller's configuration, and \<^verbatim>\<open>sort.Strings\<close> sorts in
  place. In \<open>ex_shared\<close> the options of the two configurations share one backing array.
  A \<^verbatim>\<open>mount\<close> with the first one stores it, with its options sorted; a later \<^verbatim>\<open>mount\<close> with
  the second one, for another lun, sorts the whole array, and the options of the stored
  entry are other strings afterwards.
\<close>

lemma mount_sorts_shared_array:
  "\<exists>mm1 mm2.
     run ex_shared [Mount None 0 1 ''/a'' (Some 0) None] = Inr mm1
     \<and> config (heap mm1 ! 0) = 0
     \<and> options (configs mm1 ! 0) = Some \<lparr>array = 0, off = 0, len = 2\<rparr>
     \<and> elems mm1 \<lparr>array = 0, off = 0, len = 2\<rparr> = [''b'', ''c'']
     \<and> run mm1 [Mount None 0 2 ''/b'' (Some 1) None] = Inr mm2
     \<and> config (heap mm2 ! 0) = 0
     \<and> options (configs mm2 ! 0) = Some \<lparr>array = 0, off = 0, len = 2\<rparr>
     \<and> elems mm2 \<lparr>array = 0, off = 0, len = 2\<rparr> = [''a'', ''b'']
     \<and> elems mm2 \<lparr>array = 0, off = 0, len = 3\<rparr> = [''a'', ''b'', ''c'']"
  by (simp add: ex_defs mm_defs)

section \<open>Properties of the modify-settings decoder\<close>

lemma settings_switch_None:
  "settings_switch J rt = None \<longleftrightarrow> (\<forall>ty. resourceTypeOf J ty \<noteq> rt)"
proof
  assume "settings_switch J rt = None"
  then have ne: "rt \<noteq> ResourceTypeSCSIDevice J" "rt \<noteq> ResourceTypeMappedVirtualDisk J"
    "rt \<noteq> ResourceTypeMappedDirectory J" "rt \<noteq> ResourceTypeVPMemDevice J"
    "rt \<noteq> ResourceTypeCombinedLayers J" "rt \<noteq> ResourceTypeNetwork J"
    "rt \<noteq> ResourceTypeVPCIDevice J" "rt \<noteq> ResourceTypeContainerConstraints J"
    "rt \<noteq> ResourceTypeSecurityPolicy J" "rt \<noteq> ResourceTypePolicyFragment J"
    by (simp_all add: settings_switch_def split: if_splits)
  show "\<forall>ty. resourceTypeOf J ty \<noteq> rt"
  proof
    fix ty show "resourceTypeOf J ty \<noteq> rt"
      using ne by (cases ty) auto
  qed
next
  assume a: "\<forall>ty. resourceTypeOf J ty \<noteq> rt"
  have "rt \<noteq> ResourceTypeSCSIDevice J" "rt \<noteq> ResourceTypeMappedVirtualDisk J"
    "rt \<noteq> ResourceTypeMappedDirectory J" "rt \<noteq> ResourceTypeVPMemDevice J"
    "rt \<noteq> ResourceTypeCombinedLayers J" "rt \<noteq> ResourceTypeNetwork J"
    "rt \<noteq> ResourceTypeVPCIDevice J" "rt \<noteq> ResourceTypeContainerConstraints J"
    "rt \<noteq> ResourceTypeSecurityPolicy J" "rt \<noteq> ResourceTypePolicyFragment J"
    using a [rule_format, of SCSIDevice] a [rule_format, of LCOWMappedVirtualDisk]
      a [rule_format, of LCOWMappedDirectory] a [rule_format, of LCOWMappedVPMemDevice]
      a [rule_format, of LCOWCombinedLayers] a [rule_format, of LCOWNetworkAdapter]
      a [rule_format, of LCOWMappedVPCIDevice] a [rule_format, of LCOWContainerConstraints]
      a [rule_format, of LCOWConfidentialOptions] a [rule_format, of LCOWSecurityPolicyFragment]
    by auto
  then show "settings_switch J rt = None"
    by (simp add: settings_switch_def)
qed

lemma settings_switch_Some:
  "settings_switch J rt = Some (ty, msg) \<Longrightarrow> resourceTypeOf J ty = rt"
  by (auto simp: settings_switch_def split: if_splits)

text \<open>
  C8: the decode has two phases and a dispatch. If the message does not decode, the result
  is nil with the wrapped error. Otherwise the message is returned with its \<open>Request\<close> left
  raw, and the raw bytes are decoded as a request with its \<open>Settings\<close> left raw; if that
  succeeds, the resource type decides: a resource type that is none of the ten constants
  gives the invalid-resource-type error, and one that is a constant selects the record type
  of that constant, the raw settings are decoded as that type, and on success \<open>Request\<close>
  becomes the request with its resource type, its request type (the Add constant when the
  decoded one is empty) and the decoded settings.
\<close>

theorem UnmarshalContainerModifySettings_two_phase:
  "(\<forall>err. unmarshalMessage J b = Inl err \<longrightarrow>
      UnmarshalContainerModifySettings J b
        = (None, Some (Wrap err ''failed to unmarshal ContainerModifySettings'')))
   \<and> (\<forall>base raw. unmarshalMessage J b = Inr (base, raw) \<longrightarrow>
        (\<forall>err. unmarshalRequest J raw = Inl err \<longrightarrow>
           UnmarshalContainerModifySettings J b
             = (Some \<lparr>MessageBase = base, Request = RawRequest raw\<rparr>,
                Some (Wrap err ''failed to unmarshal request.Settings as ModifySettingRequest'')))
        \<and> (\<forall>rt rq rawSettings. unmarshalRequest J raw = Inr (rt, rq, rawSettings) \<longrightarrow>
             ((\<forall>ty. resourceTypeOf J ty \<noteq> rt) \<longrightarrow>
                UnmarshalContainerModifySettings J b
                  = (Some \<lparr>MessageBase = base, Request = RawRequest raw\<rparr>,
                     Some (InvalidResourceType rt)))
             \<and> ((\<exists>ty. resourceTypeOf J ty = rt) \<longrightarrow>
                  (\<exists>ty msg. settings_switch J rt = Some (ty, msg) \<and> resourceTypeOf J ty = rt
                     \<and> (\<forall>v. unmarshalSettings J ty rawSettings = Inr v \<longrightarrow>
                          UnmarshalContainerModifySettings J b
                            = (Some \<lparr>MessageBase = base,
                                     Request = ModificationRequest rt
                                       (if rq = [] then RequestTypeAdd J else rq) ty v\<rparr>,
                               None))
                     \<and> (\<forall>err. unmarshalSettings J ty rawSettings = Inl err \<longrightarrow>
                          UnmarshalContainerModifySettings J b
                            = (Some \<lparr>MessageBase = base, Request = RawRequest raw\<rparr>,
                               Some (Wrap err msg)))))))"
proof (intro conjI allI impI)
  fix err assume "unmarshalMessage J b = Inl err"
  then show "UnmarshalContainerModifySettings J b
      = (None, Some (Wrap err ''failed to unmarshal ContainerModifySettings''))"
    by (simp add: UnmarshalContainerModifySettings_def)
next
  fix base raw err
  assume "unmarshalMessage J b = Inr (base, raw)" "unmarshalRequest J raw = Inl err"
  then show "UnmarshalContainerModifySettings J b
      = (Some \<lparr>MessageBase = base, Request = RawRequest raw\<rparr>,
         Some (Wrap err ''failed to unmarshal request.Settings as ModifySettingRequest''))"
    by (simp add: UnmarshalContainerModifySettings_def)
next
  fix base raw rt rq rawSettings
  assume m: "unmarshalMessage J b = Inr (base, raw)"
    and r: "unmarshalRequest J raw = Inr (rt, rq, rawSettings)"
    and "\<forall>ty. resourceTypeOf J ty \<noteq> rt"
  then have "settings_switch J rt = None"
    by (simp add: settings_switch_None)
  then show "UnmarshalContainerModifySettings J b
      = (Some \<lparr>MessageBase = base, Request = RawRequest raw\<rparr>, Some (InvalidResourceType rt))"
    using m r by (simp add: UnmarshalContainerModifySettings_def)
next
  fix base raw rt rq rawSettings
  assume m: "unmarshalMessage J b = Inr (base, raw)"
    and r: "unmarshalRequest J raw = Inr (rt, rq, rawSettings)"
    and "\<exists>ty. resourceTypeOf J ty = rt"
  then have "settings_switch J rt \<noteq> None"
    by (simp add: settings_switch_None)
  then obtain ty msg where s: "settings_switch J rt = Some (ty, msg)"
    by auto
  have ok: "UnmarshalContainerModifySettings J b
      = (Some \<lparr>MessageBase = base,
               Request = ModificationRequest rt (if rq = [] then RequestTypeAdd J else rq) ty v\<rparr>,
         None)" if "unmarshalSettings J ty rawSettings = Inr v" for v
    using m r s that by (simp add: UnmarshalContainerModifySettings_def)
  have bad: "UnmarshalContainerModifySettings J b
      = (Some \<lparr>MessageBase = base, Request = RawRequest raw\<rparr>, Some (Wrap err msg))"
    if "unmarshalSettings J ty rawSettings = Inl err" for err
    using m r s that by (simp add: UnmarshalContainerModifySettings_def)
  show "\<exists>ty msg. settings_switch J rt = Some (ty, msg) \<and> resourceTypeOf J ty = rt
      \<and> (\<forall>v. unmarshalSettings J ty rawSettings = Inr v \<longrightarrow>
           UnmarshalContainerModifySettings J b
             = (Some \<lparr>MessageBase = base,
                      Request = ModificationRequest rt
                        (if rq = [] then RequestTypeAdd J else rq) ty v\<rparr>,
                None))
      \<and> (\<forall>err. unmarshalSettings J ty rawSettings = Inl err \<longrightarrow>
           UnmarshalContainerModifySettings J b
             = (Some \<lparr>MessageBase = base, Request = RawRequest raw\<rparr>, Some (Wrap err msg)))"
    using s settings_switch_Some [OF s] ok bad by blast
qed

theorem UnmarshalContainerModifySettings_two_phase_witness:
  "UnmarshalContainerModifySettings ex_json ''c1|MappedVirtualDisk|{}''
     = (Some \<lparr>MessageBase = ''c1'',
              Request = ModificationRequest ''MappedVirtualDisk'' ''Add'' LCOWMappedVirtualDisk
                          (LCOWMappedVirtualDisk, ''{}'')\<rparr>, None)
   \<and> UnmarshalContainerModifySettings ex_json ''c1|Memory|{}''
     = (Some \<lparr>MessageBase = ''c1'', Request = RawRequest ''Memory|{}''\<rparr>,
        Some (InvalidResourceType ''Memory''))"
proof -
  note t = UnmarshalContainerModifySettings_two_phase [of ex_json]
  have m1: "unmarshalMessage ex_json ''c1|MappedVirtualDisk|{}''
      = Inr (''c1'', ''MappedVirtualDisk|{}'')"
    and r1: "unmarshalRequest ex_json ''MappedVirtualDisk|{}''
      = Inr (''MappedVirtualDisk'', [], ''{}'')"
    and m2: "unmarshalMessage ex_json ''c1|Memory|{}'' = Inr (''c1'', ''Memory|{}'')"
    and r2: "unmarshalRequest ex_json ''Memory|{}'' = Inr (''Memory'', [], ''{}'')"
    by (simp_all add: ex_json_def)
  have known: "\<exists>ty. resourceTypeOf ex_json ty = ''MappedVirtualDisk''"
    by (rule exI [of _ LCOWMappedVirtualDisk]) (simp add: ex_json_def)
  have unknown: "\<forall>ty. resourceTypeOf ex_json ty \<noteq> ''Memory''"
  proof
    fix ty show "resourceTypeOf ex_json ty \<noteq> ''Memory''"
      by (cases ty) (simp_all add: ex_json_def)
  qed
  from t [of "''c1|MappedVirtualDisk|{}''"] m1 r1 known
  obtain ty msg where s: "settings_switch ex_json ''MappedVirtualDisk'' = Some (ty, msg)"
    and ok: "\<forall>v. unmarshalSettings ex_json ty ''{}'' = Inr v \<longrightarrow>
      UnmarshalContainerModifySettings ex_json ''c1|MappedVirtualDisk|{}''
        = (Some \<lparr>MessageBase = ''c1'',
                 Request = ModificationRequest ''MappedVirtualDisk''
                   (if ([] :: string) = [] then RequestTypeAdd ex_json else []) ty v\<rparr>, None)"
    by blast
  have ty: "ty = LCOWMappedVirtualDisk"
    using s by (simp add: settings_switch_def ex_json_def)
  have "unmarshalSettings ex_json ty ''{}'' = Inr (LCOWMappedVirtualDisk, ''{}'')"
    by (simp add: ty ex_json_def)
  with ok have a: "UnmarshalContainerModifySettings ex_json ''c1|MappedVirtualDisk|{}''
      = (Some \<lparr>MessageBase = ''c1'',
               Request = ModificationRequest ''MappedVirtualDisk'' ''Add'' LCOWMappedVirtualDisk
                           (LCOWMappedVirtualDisk, ''{}'')\<rparr>, None)"
    by (simp add: ty ex_json_def)
  from t [of "''c1|Memory|{}''"] m2 r2 unknown
  have b: "UnmarshalContainerModifySettings ex_json ''c1|Memory|{}''
      = (Some \<lparr>MessageBase = ''c1'', Request = RawRequest ''Memory|{}''\<rparr>,
         Some (InvalidResourceType ''Memory''))"
    by blast
  show ?thesis using a b by simp
qed

end
